theory Spec2Isabelle
  imports Complex_Main "HOL-Library.Multiset" "HOL-Library.Extended_Nat"
begin

section \<open>Errors and search nodes (a\_star.py)\<close>

text \<open>
  The exceptions the modelled code can raise.  \<open>KeyError\<close> comes from \<open>del d[k]\<close> and
  \<open>dir_map[action]\<close>, \<open>IndexError\<close> from popping an empty heap, \<open>TypeError\<close> from
  subscripting a player that is \<open>None\<close>.
\<close>

datatype error = KeyError | IndexError | TypeError

text \<open>
  Class \<open>Node\<close>: a state, the parent node (or \<open>None\<close>), the action that produced it
  (or \<open>None\<close>) and the path cost \<open>g\<close>.  Actions are Python strings throughout the
  repository.  Step costs are the whole numbers the problems return (\<open>1.0\<close>); their
  floating point sums are exact, so \<open>g\<close> is a natural number here.
\<close>

datatype 's Node = Node (state: 's) (parent: "'s Node option") (action: "string option") (g: nat)

text \<open>\<open>Node.__init__\<close>: \<open>self.g = cost\<close>, plus the parent's \<open>g\<close> when there is a parent.\<close>

definition Node_init :: "'s \<Rightarrow> 's Node option \<Rightarrow> string option \<Rightarrow> nat \<Rightarrow> 's Node" where
  "Node_init s par act cost =
     Node s par act (case par of None \<Rightarrow> cost | Some p \<Rightarrow> cost + g p)"

section \<open>The frontier: Python's heapq on a list of \<open>(f, node)\<close> tuples\<close>

text \<open>
  An \<open>f\<close> value is \<open>g + h\<close>; a heuristic may return \<open>float('inf')\<close>, so \<open>f\<close> is an
  extended natural number.
\<close>

type_synonym 's entry = "enat \<times> 's Node"

text \<open>
  Tuple comparison \<open>(f1, n1) < (f2, n2)\<close>: the \<open>f\<close> values decide unless they are equal,
  then \<open>Node.__lt__\<close> compares the \<open>g\<close> values.
\<close>

definition entry_lt :: "'s entry \<Rightarrow> 's entry \<Rightarrow> bool" where
  "entry_lt x y \<longleftrightarrow> fst x < fst y \<or> (fst x = fst y \<and> g (snd x) < g (snd y))"

text \<open>
  \<open>heapq._siftdown(heap, startpos, pos)\<close>: the loop carries the list, \<open>newitem\<close> and
  \<open>pos\<close>; it ends with \<open>heap[pos] = newitem\<close>.
\<close>

function siftdown_loop :: "'s entry list \<Rightarrow> nat \<Rightarrow> 's entry \<Rightarrow> nat \<Rightarrow> 's entry list" where
  "siftdown_loop heap startpos newitem pos =
     (if pos > startpos then
        (let parentpos = (pos - 1) div 2;
             par = heap ! parentpos
         in if entry_lt newitem par
            then siftdown_loop (heap[pos := par]) startpos newitem parentpos
            else heap[pos := newitem])
      else heap[pos := newitem])"
  by pat_completeness auto
termination
  by (relation "measure (\<lambda>(heap, startpos, newitem, pos). pos)") auto

declare siftdown_loop.simps [simp del]

definition siftdown :: "'s entry list \<Rightarrow> nat \<Rightarrow> nat \<Rightarrow> 's entry list" where
  "siftdown heap startpos pos = siftdown_loop heap startpos (heap ! pos) pos"

text \<open>
  \<open>heapq._siftup(heap, pos)\<close>: the loop moves the smaller child up until a leaf is
  reached and returns the list with the final position; then the saved item is stored
  there and sifted down towards \<open>startpos\<close>.
\<close>

function siftup_loop :: "'s entry list \<Rightarrow> nat \<Rightarrow> nat \<Rightarrow> 's entry list \<times> nat" where
  "siftup_loop heap endpos pos =
     (let childpos = 2 * pos + 1
      in if childpos < endpos then
           (let rightpos = childpos + 1;
                childpos' = (if rightpos < endpos \<and> \<not> entry_lt (heap ! childpos) (heap ! rightpos)
                             then rightpos else childpos)
            in siftup_loop (heap[pos := heap ! childpos']) endpos childpos')
         else (heap, pos))"
  by pat_completeness auto
termination
  by (relation "measure (\<lambda>(heap, endpos, pos). endpos - pos)") (auto split: if_splits)

declare siftup_loop.simps [simp del]

definition siftup :: "'s entry list \<Rightarrow> nat \<Rightarrow> 's entry list" where
  "siftup heap pos =
     (let newitem = heap ! pos;
          (heap', pos') = siftup_loop heap (length heap) pos
      in siftdown (heap'[pos' := newitem]) pos pos')"

text \<open>\<open>heapq.heappush\<close>: append, then sift the new last item down to the root.\<close>

definition heappush :: "'s entry list \<Rightarrow> 's entry \<Rightarrow> 's entry list" where
  "heappush heap item = siftdown (heap @ [item]) 0 (length heap)"

text \<open>
  \<open>heapq.heappop\<close>: \<open>heap.pop()\<close> raises \<open>IndexError\<close> on an empty list; otherwise the
  last item replaces the root and is sifted up, and the old root is returned.
\<close>

definition heappop :: "'s entry list \<Rightarrow> error + ('s entry \<times> 's entry list)" where
  "heappop heap =
     (if heap = [] then Inl IndexError
      else (let lastelt = last heap; heap' = butlast heap
            in if heap' \<noteq> [] then Inr (heap' ! 0, siftup (heap'[0 := lastelt]) 0)
               else Inr (lastelt, heap')))"

text \<open>\<open>heapq.heapify\<close>: \<open>for i in reversed(range(n//2)): _siftup(x, i)\<close>.\<close>

definition heapify :: "'s entry list \<Rightarrow> 's entry list" where
  "heapify x = fold (\<lambda>i h. siftup h i) (rev [0..<length x div 2]) x"


text \<open>
  \<open>_remove_from_frontier\<close> scans for the first entry whose node has the given state.
\<close>

fun first_index :: "('a \<Rightarrow> bool) \<Rightarrow> 'a list \<Rightarrow> nat option" where
  "first_index P [] = None"
| "first_index P (x # xs) = (if P x then Some 0 else map_option Suc (first_index P xs))"

section \<open>Metrics, solver and the state-space contract\<close>

record AStarMetrics =
  nodes_expanded :: nat
  nodes_generated :: nat
  max_frontier_size :: nat
  max_memory_nodes :: nat
  total_time :: real
  solution_length :: nat
  success :: bool
  timeout :: bool
  avg_branching_factor :: real

text \<open>The dataclass defaults.\<close>

definition AStarMetrics_init :: AStarMetrics where
  "AStarMetrics_init =
     \<lparr>nodes_expanded = 0, nodes_generated = 0, max_frontier_size = 0, max_memory_nodes = 0,
      total_time = 0, solution_length = 0, success = False, timeout = False,
      avg_branching_factor = 0\<rparr>"

text \<open>
  \<open>AStarSolver\<close>: the heuristic and the metrics object, both set in \<open>__init__\<close>.  The
  metrics object lives as long as the solver; \<open>solve\<close> mutates and returns it.
\<close>

record 's AStarSolver =
  heuristic :: "'s \<Rightarrow> enat"
  metrics :: AStarMetrics

definition AStarSolver_init :: "('s \<Rightarrow> enat) \<Rightarrow> 's AStarSolver" where
  "AStarSolver_init heuristic_func = \<lparr>heuristic = heuristic_func, metrics = AStarMetrics_init\<rparr>"

text \<open>
  The problem object \<open>solve\<close> is given: the four methods of its docstring.  \<open>actions\<close>
  and \<open>result\<close> may raise.  \<open>state_key\<close> is what the state's \<open>__hash__\<close> and \<open>__eq__\<close>
  look at: sets and dictionaries of states are keyed by it.
\<close>

record ('s, 'k) problem =
  get_initial_state :: 's
  goal_test :: "'s \<Rightarrow> bool"
  actions :: "'s \<Rightarrow> error + string list"
  result :: "'s \<Rightarrow> string \<Rightarrow> error + ('s \<times> nat)"
  state_key :: "'s \<Rightarrow> 'k"

text \<open>
  The local variables of \<open>solve\<close> that the loop changes, with \<open>self.metrics\<close>.
  \<open>ticks\<close> counts the calls of \<open>time.time()\<close> made so far: the clock is a function
  from the number of the call to the time it returns.
\<close>

record ('s, 'k) search =
  frontier :: "'s entry list"
  frontier_states :: "'k \<rightharpoonup> nat \<times> enat"
  explored :: "'k set"
  branching_factors :: "nat list"
  self_metrics :: AStarMetrics
  ticks :: nat

type_synonym 's outcome = "'s list option \<times> string list option \<times> AStarMetrics"

datatype ('r, 'st) step = Return 'r | Raise error | Next 'st

section \<open>The A* engine (a\_star.py)\<close>

text \<open>\<open>_f\<close>: \<open>node.g + self.heuristic(node.state)\<close>.\<close>

definition solver_f :: "'s AStarSolver \<Rightarrow> 's Node \<Rightarrow> enat" where
  "solver_f slv node = enat (g node) + heuristic slv (state node)"

text \<open>
  \<open>_remove_from_frontier\<close>: at the first entry with the state, the last entry is copied
  over it, the list is popped and heapified, and the dictionary entry deleted
  (\<open>KeyError\<close> when it is missing); no such entry, nothing happens.
\<close>

definition remove_from_frontier ::
  "('s \<Rightarrow> 'k) \<Rightarrow> 's entry list \<Rightarrow> ('k \<rightharpoonup> nat \<times> enat) \<Rightarrow> 's
     \<Rightarrow> error + ('s entry list \<times> ('k \<rightharpoonup> nat \<times> enat))" where
  "remove_from_frontier key fr fs s =
     (case first_index (\<lambda>(f, node). key (state node) = key s) fr of
        None \<Rightarrow> Inr (fr, fs)
      | Some i \<Rightarrow>
          (let fr' = heapify (butlast (fr[i := last fr]))
           in case fs (key s) of
                None \<Rightarrow> Inl KeyError
              | Some v \<Rightarrow> Inr (fr', fs(key s := None))))"

text \<open>
  \<open>_extract_solution\<close>: the while loop walks the parent links from the goal node,
  collecting states and the truthy actions (a non-empty string); both lists are then
  reversed.
\<close>

fun walk_parents :: "'s Node \<Rightarrow> 's list \<times> string list" where
  "walk_parents (Node s None act c) =
     ([s], (case act of None \<Rightarrow> [] | Some a \<Rightarrow> if a \<noteq> [] then [a] else []))"
| "walk_parents (Node s (Some p) act c) =
     (let (path, acts) = walk_parents p
      in (s # path, (case act of None \<Rightarrow> [] | Some a \<Rightarrow> if a \<noteq> [] then [a] else []) @ acts))"

definition extract_solution :: "'s Node \<Rightarrow> 's list \<times> string list" where
  "extract_solution goal_node = (let (path, acts) = walk_parents goal_node in (rev path, rev acts))"

text \<open>
  The body of \<open>for action in actions\<close> after the child node is built (lines 118 to 141):
  count the node, skip an explored state, replace a frontier entry with a worse \<open>g\<close>,
  leave one with an equal or better \<open>g\<close>, insert a new state.
\<close>

definition consider_child ::
  "'s AStarSolver \<Rightarrow> ('s \<Rightarrow> 'k) \<Rightarrow> 's Node \<Rightarrow> ('s, 'k) search \<Rightarrow> error + ('s, 'k) search" where
  "consider_child slv key child_node st =
     (let st1 = st\<lparr>self_metrics := (self_metrics st)
                   \<lparr>nodes_generated := nodes_generated (self_metrics st) + 1\<rparr>\<rparr>;
          child_state = state child_node
      in if key child_state \<in> explored st1 then Inr st1
         else
           (let child_f = solver_f slv child_node
            in case frontier_states st1 (key child_state) of
                 Some (frontier_g, frontier_f) \<Rightarrow>
                   if g child_node < frontier_g then
                     (case remove_from_frontier key (frontier st1) (frontier_states st1) child_state of
                        Inl e \<Rightarrow> Inl e
                      | Inr (fr, fs) \<Rightarrow>
                          Inr (st1\<lparr>frontier := heappush fr (child_f, child_node),
                                   frontier_states := fs(key child_state \<mapsto> (g child_node, child_f))\<rparr>))
                   else Inr st1
               | None \<Rightarrow>
                   (let fr = heappush (frontier st1) (child_f, child_node)
                    in Inr (st1\<lparr>frontier := fr,
                                frontier_states :=
                                  (frontier_states st1)(key child_state \<mapsto> (g child_node, child_f)),
                                self_metrics := (self_metrics st1)
                                  \<lparr>max_frontier_size :=
                                     max (max_frontier_size (self_metrics st1)) (length fr)\<rparr>\<rparr>))))"

text \<open>The loop \<open>for action in actions\<close>: an exception of \<open>result\<close> ends it.\<close>

fun generate_successors ::
  "'s AStarSolver \<Rightarrow> ('s, 'k) problem \<Rightarrow> 's Node \<Rightarrow> string list \<Rightarrow> ('s, 'k) search
     \<Rightarrow> error + ('s, 'k) search" where
  "generate_successors slv p node [] st = Inr st"
| "generate_successors slv p node (a # as) st =
     (case result p (state node) a of
        Inl e \<Rightarrow> Inl e
      | Inr (child_state, step_cost) \<Rightarrow>
          (case consider_child slv (state_key p)
                  (Node_init child_state (Some node) (Some a) step_cost) st of
             Inl e \<Rightarrow> Inl e
           | Inr st' \<Rightarrow> generate_successors slv p node as st'))"

text \<open>
  One pass through the body of \<open>while frontier\<close> (lines 80 to 141), entered with a
  non-empty frontier.  It returns from \<open>solve\<close> (timeout or goal), raises, or hands the
  next search state to the loop.  A return carries the final search state as well, so
  that theorems can speak about the explored set and the samples at the end.
\<close>

definition iteration ::
  "'s AStarSolver \<Rightarrow> ('s, 'k) problem \<Rightarrow> real \<Rightarrow> (nat \<Rightarrow> real) \<Rightarrow> ('s, 'k) search
     \<Rightarrow> ('s outcome \<times> ('s, 'k) search, ('s, 'k) search) step" where
  "iteration slv p timeout_secs clock st =
     (let start_time = clock 0
      in if clock (ticks st) - start_time > timeout_secs then
           (let m = (self_metrics st)
                      \<lparr>timeout := True, total_time := clock (Suc (ticks st)) - start_time\<rparr>
            in Return ((None, None, m), st\<lparr>self_metrics := m, ticks := Suc (Suc (ticks st))\<rparr>))
         else
           (let current_memory = length (frontier st) + card (explored st);
                st1 = st\<lparr>ticks := Suc (ticks st),
                         self_metrics := (self_metrics st)
                           \<lparr>max_memory_nodes :=
                              max (max_memory_nodes (self_metrics st)) current_memory\<rparr>\<rparr>
            in case heappop (frontier st1) of
                 Inl e \<Rightarrow> Raise e
               | Inr ((f, node), fr) \<Rightarrow>
                   (case frontier_states st1 (state_key p (state node)) of
                      None \<Rightarrow> Raise KeyError
                    | Some v \<Rightarrow>
                        (let st2 = st1\<lparr>frontier := fr,
                                       frontier_states :=
                                         (frontier_states st1)(state_key p (state node) := None),
                                       self_metrics := (self_metrics st1)
                                         \<lparr>nodes_expanded := nodes_expanded (self_metrics st1) + 1\<rparr>\<rparr>
                         in if goal_test p (state node) then
                              (let m = (self_metrics st2)
                                         \<lparr>success := True,
                                          total_time := clock (ticks st2) - start_time\<rparr>;
                                   (path, acts) = extract_solution node;
                                   m1 = m\<lparr>solution_length := length acts\<rparr>;
                                   m2 = (if branching_factors st2 \<noteq> []
                                         then m1\<lparr>avg_branching_factor :=
                                                   real (sum_list (branching_factors st2))
                                                   / real (length (branching_factors st2))\<rparr>
                                         else m1)
                               in Return ((Some path, Some acts, m2),
                                          st2\<lparr>self_metrics := m2, ticks := Suc (ticks st2)\<rparr>))
                            else
                              (let st3 = st2\<lparr>explored :=
                                               insert (state_key p (state node)) (explored st2)\<rparr>
                               in case actions p (state node) of
                                    Inl e \<Rightarrow> Raise e
                                  | Inr acts \<Rightarrow>
                                      (case generate_successors slv p node acts
                                              (st3\<lparr>branching_factors :=
                                                     branching_factors st3 @ [length acts]\<rparr>) of
                                         Inl e \<Rightarrow> Raise e
                                       | Inr st' \<Rightarrow> Next st'))))))"

text \<open>
  The while loop.  The search may run forever on an infinite state space with a clock
  that never passes the limit, so the loop takes fuel: one unit per test of
  \<open>while frontier\<close>; \<open>None\<close> means the fuel ran out.  An empty frontier is the exit below
  the loop (lines 143 to 145).
\<close>

fun search_loop ::
  "nat \<Rightarrow> 's AStarSolver \<Rightarrow> ('s, 'k) problem \<Rightarrow> real \<Rightarrow> (nat \<Rightarrow> real) \<Rightarrow> ('s, 'k) search
     \<Rightarrow> (error + 's outcome \<times> ('s, 'k) search) option" where
  "search_loop 0 slv p timeout_secs clock st = None"
| "search_loop (Suc n) slv p timeout_secs clock st =
     (if frontier st = [] then
        (let m = (self_metrics st)\<lparr>total_time := clock (ticks st) - clock 0\<rparr>
         in Some (Inr ((None, None, m), st\<lparr>self_metrics := m, ticks := Suc (ticks st)\<rparr>)))
      else
        (case iteration slv p timeout_secs clock st of
           Return r \<Rightarrow> Some (Inr r)
         | Raise e \<Rightarrow> Some (Inl e)
         | Next st' \<Rightarrow> search_loop n slv p timeout_secs clock st'))"

text \<open>Lines 58 to 77 of \<open>solve\<close>: the search state before the loop.\<close>

definition search_init :: "'s AStarSolver \<Rightarrow> ('s, 'k) problem \<Rightarrow> ('s, 'k) search" where
  "search_init slv p =
     (let initial_state = get_initial_state p;
          initial_node = Node_init initial_state None None 0;
          initial_f = solver_f slv initial_node
      in \<lparr>frontier = heappush [] (initial_f, initial_node),
          frontier_states = [state_key p initial_state \<mapsto> (g initial_node, initial_f)],
          explored = {},
          branching_factors = [],
          self_metrics = (metrics slv)
            \<lparr>nodes_generated := 1, max_frontier_size := 1, max_memory_nodes := 1\<rparr>,
          ticks = 1\<rparr>)"

definition run_search ::
  "nat \<Rightarrow> 's AStarSolver \<Rightarrow> ('s, 'k) problem \<Rightarrow> real \<Rightarrow> (nat \<Rightarrow> real)
     \<Rightarrow> (error + 's outcome \<times> ('s, 'k) search) option" where
  "run_search fuel slv p timeout_secs clock =
     search_loop fuel slv p timeout_secs clock (search_init slv p)"

text \<open>
  \<open>solve\<close>: what the caller gets, the triple \<open>(path, actions, metrics)\<close> or the exception.
  The returned metrics are the solver's own object, so a second \<open>solve\<close> on the same
  solver starts from them: \<open>solver_after\<close>.
\<close>

definition solve ::
  "nat \<Rightarrow> 's AStarSolver \<Rightarrow> ('s, 'k) problem \<Rightarrow> real \<Rightarrow> (nat \<Rightarrow> real)
     \<Rightarrow> (error + 's outcome) option" where
  "solve fuel slv p timeout_secs clock =
     map_option (map_sum id fst) (run_search fuel slv p timeout_secs clock)"

definition solver_after :: "'s AStarSolver \<Rightarrow> 's outcome \<Rightarrow> 's AStarSolver" where
  "solver_after slv r = slv\<lparr>metrics := snd (snd r)\<rparr>"

text \<open>The problem and heuristic of \<open>test_a_star\<close>.\<close>

definition TestProblem :: "(string, string) problem" where
  "TestProblem =
     \<lparr>get_initial_state = ''start'',
      goal_test = (\<lambda>s. s = ''goal''),
      actions = (\<lambda>s. Inr (if s = ''start'' then [''move''] else [])),
      result = (\<lambda>s a. Inr (''goal'', 1)),
      state_key = (\<lambda>s. s)\<rparr>"

definition simple_heuristic :: "string \<Rightarrow> enat" where
  "simple_heuristic s = (if s = ''goal'' then 0 else 1)"


section \<open>The puzzle (sokoban.py)\<close>

type_synonym pos = "int \<times> int"

text \<open>
  \<open>SokobanState\<close>.  The player is \<open>None\<close> when the level has no player glyph.
  \<open>__hash__\<close> and \<open>__eq__\<close> look at the boxes and the player only: \<open>SokobanState_key\<close>.
\<close>

record SokobanState =
  boxes :: "pos set"
  player :: "pos option"
  walls :: "pos set"
  goals :: "pos set"

definition SokobanState_key :: "SokobanState \<Rightarrow> pos set \<times> pos option" where
  "SokobanState_key s = (boxes s, player s)"

definition is_goal :: "SokobanState \<Rightarrow> bool" where
  "is_goal s \<longleftrightarrow> boxes s = goals s"

text \<open>
  A Python \<open>str\<close> is a list of code points.  \<open>str.strip\<close> and \<open>str.rstrip\<close> without
  argument remove the characters Python counts as whitespace.
\<close>

type_synonym pystr = "nat list"

definition isspace :: "nat \<Rightarrow> bool" where
  "isspace c \<longleftrightarrow>
     (9 \<le> c \<and> c \<le> 13) \<or> (28 \<le> c \<and> c \<le> 32) \<or> c = 133 \<or> c = 160 \<or> c = 5760 \<or>
     (8192 \<le> c \<and> c \<le> 8202) \<or> c = 8232 \<or> c = 8233 \<or> c = 8239 \<or> c = 8287 \<or> c = 12288"

definition rstrip :: "pystr \<Rightarrow> pystr" where
  "rstrip s = rev (dropWhile isspace (rev s))"

definition strip :: "pystr \<Rightarrow> pystr" where
  "strip s = rstrip (dropWhile isspace s)"

text \<open>\<open>s.split('\n')\<close>: the pieces between line feeds (code point 10); never empty.\<close>

fun split_lines :: "pystr \<Rightarrow> pystr list" where
  "split_lines [] = [[]]"
| "split_lines (c # cs) =
     (if c = 10 then [] # split_lines cs
      else (case split_lines cs of [] \<Rightarrow> [[c]] | l # ls \<Rightarrow> (c # l) # ls))"

definition enumerate :: "'a list \<Rightarrow> (int \<times> 'a) list" where
  "enumerate xs = zip (map int [0..<length xs]) xs"

text \<open>
  The if/elif chain of \<open>_parse_level\<close> on one character of the cell \<open>pos\<close>; the accumulator is
  \<open>(walls, boxes, player, goals)\<close>.  The glyphs are given by code point:
  \<open>#\<close> 35, brick 129521, black square 11035; \<open>B\<close> 66, \<open>$\<close> 36, package 128230;
  \<open>G\<close> 71, \<open>.\<close> 46, star 11088, target 127919; \<open>P\<close> 80, \<open>@\<close> 64, person 129489,
  worker 128119; \<open>*\<close> 42; \<open>+\<close> 43.
\<close>

type_synonym level_sets = "pos set \<times> pos set \<times> pos option \<times> pos set"

definition parse_char :: "pos \<Rightarrow> nat \<Rightarrow> level_sets \<Rightarrow> level_sets" where
  "parse_char cell c acc =
     (case acc of (ws, bs, pl, gs) \<Rightarrow>
        if c = 35 \<or> c = 129521 \<or> c = 11035 then (insert cell ws, bs, pl, gs)
        else if c = 66 \<or> c = 36 \<or> c = 128230 then (ws, insert cell bs, pl, gs)
        else if c = 71 \<or> c = 46 \<or> c = 11088 \<or> c = 127919 then (ws, bs, pl, insert cell gs)
        else if c = 80 \<or> c = 64 \<or> c = 129489 \<or> c = 128119 then (ws, bs, Some cell, gs)
        else if c = 42 then (ws, insert cell bs, pl, insert cell gs)
        else if c = 43 then (ws, bs, Some cell, insert cell gs)
        else acc)"

definition parse_level :: "pystr \<Rightarrow> level_sets" where
  "parse_level level_str =
     (let lines = map rstrip (split_lines (strip level_str))
      in fold (\<lambda>(r, line) acc. fold (\<lambda>(c, ch) acc'. parse_char (r, c) ch acc') (enumerate line) acc)
           (enumerate lines) ({}, {}, None, {}))"

text \<open>
  \<open>SokobanProblem\<close>: the four parsed attributes and the initial state.  \<open>__init__\<close> has
  no check and no raise; its result type keeps room for an exception all the same.
\<close>

record SokobanProblem =
  level_walls :: "pos set"
  level_boxes :: "pos set"
  level_player :: "pos option"
  level_goals :: "pos set"
  initial_state :: SokobanState

definition SokobanProblem_init :: "pystr \<Rightarrow> error + SokobanProblem" where
  "SokobanProblem_init level_str =
     (case parse_level level_str of (ws, bs, pl, gs) \<Rightarrow>
        Inr \<lparr>level_walls = ws, level_boxes = bs, level_player = pl, level_goals = gs,
             initial_state = \<lparr>boxes = bs, player = pl, walls = ws, goals = gs\<rparr>\<rparr>)"

definition directions :: "(int \<times> int \<times> string) list" where
  "directions = [(-1, 0, ''UP''), (1, 0, ''DOWN''), (0, -1, ''LEFT''), (0, 1, ''RIGHT'')]"

text \<open>
  \<open>actions\<close>: \<open>state.player[0]\<close> raises \<open>TypeError\<close> when the player is \<open>None\<close>.  A
  direction is kept unless the destination is a wall, or holds a box whose own
  destination is a wall or a box.
\<close>

definition sokoban_actions :: "SokobanState \<Rightarrow> error + string list" where
  "sokoban_actions s =
     (case player s of
        None \<Rightarrow> Inl TypeError
      | Some (pr, pc) \<Rightarrow>
          Inr (map (\<lambda>(dr, dc, a). a)
                 (filter (\<lambda>(dr, dc, a).
                     (let new_player = (pr + dr, pc + dc)
                      in \<not> new_player \<in> walls s \<and>
                         \<not> (new_player \<in> boxes s \<and>
                            (let new_box = (fst new_player + dr, snd new_player + dc)
                             in new_box \<in> walls s \<or> new_box \<in> boxes s))))
                    directions)))"

definition dir_map :: "string \<rightharpoonup> int \<times> int" where
  "dir_map = [''UP'' \<mapsto> (-1, 0), ''DOWN'' \<mapsto> (1, 0), ''LEFT'' \<mapsto> (0, -1), ''RIGHT'' \<mapsto> (0, 1)]"

text \<open>
  \<open>result\<close>: \<open>dir_map[action]\<close> raises \<open>KeyError\<close> for an unknown action; the player
  moves, and a box on the destination moves one cell further; the cost is 1.
\<close>

definition sokoban_result :: "SokobanState \<Rightarrow> string \<Rightarrow> error + (SokobanState \<times> nat)" where
  "sokoban_result s a =
     (case dir_map a of
        None \<Rightarrow> Inl KeyError
      | Some (dr, dc) \<Rightarrow>
          (case player s of
             None \<Rightarrow> Inl TypeError
           | Some (pr, pc) \<Rightarrow>
               (let new_player = (pr + dr, pc + dc);
                    new_boxes = (if new_player \<in> boxes s
                                 then insert (fst new_player + dr, snd new_player + dc)
                                        (boxes s - {new_player})
                                 else boxes s)
                in Inr (\<lparr>boxes = new_boxes, player = Some new_player,
                         walls = walls s, goals = goals s\<rparr>, 1))))"

text \<open>The problem object as the engine sees it.\<close>

definition sokoban_problem :: "SokobanProblem \<Rightarrow> (SokobanState, pos set \<times> pos option) problem" where
  "sokoban_problem sp =
     \<lparr>get_initial_state = initial_state sp,
      goal_test = is_goal,
      actions = sokoban_actions,
      result = sokoban_result,
      state_key = SokobanState_key\<rparr>"

section \<open>The heuristics (heuristics.py)\<close>

definition manhattan_distance :: "pos \<Rightarrow> pos \<Rightarrow> nat" where
  "manhattan_distance pos1 pos2 = nat (\<bar>fst pos1 - fst pos2\<bar> + \<bar>snd pos1 - snd pos2\<bar>)"

text \<open>
  The heuristics iterate over frozensets.  The order of that iteration is Python's
  business; it is a parameter here, \<open>iter\<close>, which lists a set.  \<open>lists_set\<close> says that
  a list is such a listing: every element once.
\<close>

definition lists_set :: "'a list \<Rightarrow> 'a set \<Rightarrow> bool" where
  "lists_set xs S \<longleftrightarrow> set xs = S \<and> distinct xs"

text \<open>The inner loop of \<open>manhattan_heuristic\<close>: \<open>min_dist\<close> starts at \<open>float('inf')\<close>.\<close>

definition min_dist_loop :: "pos \<Rightarrow> pos list \<Rightarrow> enat" where
  "min_dist_loop box gs =
     fold (\<lambda>goal min_dist.
             if enat (manhattan_distance box goal) < min_dist
             then enat (manhattan_distance box goal) else min_dist) gs \<infinity>"

definition manhattan_heuristic ::
  "(pos set \<Rightarrow> pos list) \<Rightarrow> SokobanState \<Rightarrow> pos set \<Rightarrow> enat" where
  "manhattan_heuristic iter s gls =
     fold (\<lambda>box total. total + min_dist_loop box (iter gls)) (iter (boxes s)) 0"

definition simple_count_heuristic ::
  "(pos set \<Rightarrow> pos list) \<Rightarrow> SokobanState \<Rightarrow> pos set \<Rightarrow> nat" where
  "simple_count_heuristic iter s gls = length (filter (\<lambda>b. b \<notin> gls) (iter (boxes s)))"

text \<open>
  The inner loop of \<open>minimum_matching_heuristic\<close>: the nearest goal not yet used, the
  first one among equals; \<open>(\<infinity>, None)\<close> when every goal is used.
\<close>

definition best_goal_loop :: "pos \<Rightarrow> pos list \<Rightarrow> pos set \<Rightarrow> enat \<times> pos option" where
  "best_goal_loop box goals_list used_goals =
     fold (\<lambda>goal (best_dist, best_goal).
             if goal \<in> used_goals then (best_dist, best_goal)
             else if enat (manhattan_distance box goal) < best_dist
                  then (enat (manhattan_distance box goal), Some goal)
                  else (best_dist, best_goal))
          goals_list (\<infinity>, None)"

text \<open>The outer loop: the accumulator is \<open>(total, used_goals)\<close>.\<close>

definition matching_loop :: "pos list \<Rightarrow> pos list \<Rightarrow> enat \<times> pos set \<Rightarrow> enat \<times> pos set" where
  "matching_loop bxs goals_list acc =
     fold (\<lambda>box (total, used_goals).
             (case best_goal_loop box goals_list used_goals of
                (best_dist, Some best_goal) \<Rightarrow> (total + best_dist, insert best_goal used_goals)
              | (best_dist, None) \<Rightarrow> (total, used_goals)))
          bxs acc"

definition minimum_matching_heuristic ::
  "(pos set \<Rightarrow> pos list) \<Rightarrow> SokobanState \<Rightarrow> pos set \<Rightarrow> enat" where
  "minimum_matching_heuristic iter s gls =
     (let bxs = iter (boxes s); goals_list = iter gls
      in if bxs = [] then 0 else fst (matching_loop bxs goals_list (0, {})))"

section \<open>Notions the properties are stated with\<close>

text \<open>The key of the state an entry of the frontier holds.\<close>

definition entry_key :: "('s \<Rightarrow> 'k) \<Rightarrow> 's entry \<Rightarrow> 'k" where
  "entry_key key e = key (state (snd e))"

text \<open>
  The bookkeeping the loop keeps between passes: no state twice in the frontier, the
  dictionary \<open>frontier_states\<close> has exactly the states of the frontier and records each
  entry's \<open>g\<close> and \<open>f\<close>, no state of the frontier is explored, and the explored set is
  finite.
\<close>

definition frontier_ok ::
  "('s \<Rightarrow> 'k) \<Rightarrow> 's entry list \<Rightarrow> ('k \<rightharpoonup> nat \<times> enat) \<Rightarrow> 'k set \<Rightarrow> bool" where
  "frontier_ok key fr fs ex \<longleftrightarrow>
     distinct (map (entry_key key) fr) \<and>
     dom fs = entry_key key ` set fr \<and>
     (\<forall>e \<in> set fr. fs (entry_key key e) = Some (g (snd e), fst e)) \<and>
     (\<forall>e \<in> set fr. entry_key key e \<notin> ex) \<and>
     finite ex"

definition frontier_inv :: "('s \<Rightarrow> 'k) \<Rightarrow> ('s, 'k) search \<Rightarrow> bool" where
  "frontier_inv key st \<longleftrightarrow> frontier_ok key (frontier st) (frontier_states st) (explored st)"

text \<open>
  The search state at the head of the while loop after \<open>n\<close> complete passes, when the
  loop gets that far.
\<close>

fun loop_state ::
  "nat \<Rightarrow> 's AStarSolver \<Rightarrow> ('s, 'k) problem \<Rightarrow> real \<Rightarrow> (nat \<Rightarrow> real) \<Rightarrow> ('s, 'k) search
     \<Rightarrow> ('s, 'k) search option" where
  "loop_state 0 slv p timeout_secs clock st = Some st"
| "loop_state (Suc n) slv p timeout_secs clock st =
     (if frontier st = [] then None
      else (case iteration slv p timeout_secs clock st of
              Next st' \<Rightarrow> loop_state n slv p timeout_secs clock st'
            | Return r \<Rightarrow> None
            | Raise e \<Rightarrow> None))"

text \<open>
  Applying a list of actions in order with \<open>result\<close>, from a state: the sequence of
  states passed, the first one included.
\<close>

fun replay :: "('s, 'k) problem \<Rightarrow> 's \<Rightarrow> string list \<Rightarrow> error + 's list" where
  "replay p s [] = Inr [s]"
| "replay p s (a # as) =
     (case result p s a of
        Inl e \<Rightarrow> Inl e
      | Inr (s', cost) \<Rightarrow>
          (case replay p s' as of Inl e \<Rightarrow> Inl e | Inr path \<Rightarrow> Inr (s # path)))"

text \<open>
  A node whose parent links lead back to the initial state, each link made by \<open>result\<close>
  with a non-empty action string.
\<close>

fun node_ok :: "('s, 'k) problem \<Rightarrow> 's Node \<Rightarrow> bool" where
  "node_ok p (Node s None act c) \<longleftrightarrow> s = get_initial_state p \<and> act = None"
| "node_ok p (Node s (Some par) act c) \<longleftrightarrow>
     node_ok p par \<and>
     (case act of
        None \<Rightarrow> False
      | Some a \<Rightarrow> a \<noteq> [] \<and> (case result p (state par) a of Inl e \<Rightarrow> False | Inr (s', cost) \<Rightarrow> s' = s))"

section \<open>Levels and problems used as examples\<close>

text \<open>
  \<open>LEVEL_1\<close> of sokoban.py: a line feed, then \<open>#####\<close>, \<open>#@$.#\<close>, \<open>#####\<close>, each
  followed by a line feed.
\<close>

definition LEVEL_1 :: pystr where
  "LEVEL_1 = [10, 35, 35, 35, 35, 35, 10, 35, 64, 36, 46, 35, 10, 35, 35, 35, 35, 35, 10]"

definition level1_walls :: "pos set" where
  "level1_walls = {(0, 0), (0, 1), (0, 2), (0, 3), (0, 4), (1, 0), (1, 4),
                   (2, 0), (2, 1), (2, 2), (2, 3), (2, 4)}"

text \<open>The initial state of \<open>LEVEL_1\<close>: the player at (1, 1), a box at (1, 2), the goal at (1, 3).\<close>

definition level1_state :: SokobanState where
  "level1_state = \<lparr>boxes = {(1, 2)}, player = Some (1, 1), walls = level1_walls, goals = {(1, 3)}\<rparr>"

text \<open>A level of one row of wall, \<open>###\<close>: no player, no box, no goal.\<close>

definition LEVEL_no_player :: pystr where
  "LEVEL_no_player = [35, 35, 35]"

text \<open>
  A search state over string states, for the three cases of a child: the state \<open>x\<close> is
  in the frontier with \<open>g = 3\<close>, the state \<open>start\<close> is explored.
\<close>

definition zero_solver :: "string AStarSolver" where
  "zero_solver = AStarSolver_init (\<lambda>s. 0)"

definition search_x :: "(string, string) search" where
  "search_x =
     \<lparr>frontier = [(3, Node ''x'' None None 3)],
      frontier_states = [''x'' \<mapsto> (3, 3)],
      explored = {''start''},
      branching_factors = [1],
      self_metrics = AStarMetrics_init\<lparr>nodes_expanded := 1, nodes_generated := 2\<rparr>,
      ticks = 2\<rparr>"

text \<open>A clock that stands still, and one that jumps past any limit after the first reading.\<close>

definition still_clock :: "nat \<Rightarrow> real" where
  "still_clock n = 0"

definition jumping_clock :: "nat \<Rightarrow> real" where
  "jumping_clock n = (if n = 0 then 0 else 100)"

text \<open>The solver of \<open>test_a_star\<close>, freshly constructed.\<close>

definition test_solver :: "string AStarSolver" where
  "test_solver = AStarSolver_init simple_heuristic"

text \<open>
  The problem of \<open>LEVEL_1\<close> and a solver with the Manhattan heuristic for its goals.
  \<open>level1_iter\<close> lists the two box sets that occur in its search.
\<close>

definition level1_problem :: SokobanProblem where
  "level1_problem =
     \<lparr>level_walls = level1_walls, level_boxes = {(1, 2)}, level_player = Some (1, 1),
      level_goals = {(1, 3)}, initial_state = level1_state\<rparr>"

definition level1_iter :: "pos set \<Rightarrow> pos list" where
  "level1_iter S = (if S = {(1, 2)} then [(1, 2)] else if S = {(1, 3)} then [(1, 3)] else [])"

definition level1_solver :: "SokobanState AStarSolver" where
  "level1_solver = AStarSolver_init (\<lambda>s. manhattan_heuristic level1_iter s {(1, 3)})"

text \<open>What \<open>test_a_star\<close>'s first \<open>solve\<close> returns.\<close>

definition test_result1 :: "string outcome" where
  "test_result1 =
     (Some [''start'', ''goal''], Some [''move''],
      \<lparr>nodes_expanded = 2, nodes_generated = 2, max_frontier_size = 1,
       max_memory_nodes = 2, total_time = 0, solution_length = 1,
       success = True, timeout = False, avg_branching_factor = 1\<rparr>)"

text \<open>
  A level without goal, \<open>#####\<close>, \<open>#@$ #\<close>, \<open>#####\<close>: the box can be pushed once, to
  the wall, and the search runs out of states.  Its solver counts the boxes off goal.
\<close>

definition LEVEL_no_goal :: pystr where
  "LEVEL_no_goal = [35, 35, 35, 35, 35, 10, 35, 64, 36, 32, 35, 10, 35, 35, 35, 35, 35]"

definition no_goal_state :: SokobanState where
  "no_goal_state = \<lparr>boxes = {(1, 2)}, player = Some (1, 1), walls = level1_walls, goals = {}\<rparr>"

definition no_goal_problem :: SokobanProblem where
  "no_goal_problem =
     \<lparr>level_walls = level1_walls, level_boxes = {(1, 2)}, level_player = Some (1, 1),
      level_goals = {}, initial_state = no_goal_state\<rparr>"

definition no_goal_solver :: "SokobanState AStarSolver" where
  "no_goal_solver = AStarSolver_init (\<lambda>s. enat (simple_count_heuristic level1_iter s {}))"

text \<open>A level with a box and nothing else, \<open>$\<close>: no player, and the box is off goal.\<close>

definition lone_box_state :: SokobanState where
  "lone_box_state = \<lparr>boxes = {(0, 0)}, player = None, walls = {}, goals = {}\<rparr>"

definition lone_box_problem :: SokobanProblem where
  "lone_box_problem =
     \<lparr>level_walls = {}, level_boxes = {(0, 0)}, level_player = None, level_goals = {},
      initial_state = lone_box_state\<rparr>"

section \<open>The heap operations keep the entries\<close>

lemma mset_update_swap:
  assumes "i < length xs" "j < length xs"
  shows "mset (xs[i := xs ! j, j := x]) = mset (xs[i := x])"
proof (cases "i = j")
  case True
  then show ?thesis by simp
next
  case False
  with assms show ?thesis
    by (simp add: mset_update nth_list_update)
qed

lemma length_siftdown_loop [simp]: "length (siftdown_loop heap sp item pos) = length heap"
proof (induction heap sp item pos rule: siftdown_loop.induct)
  case (1 heap startpos newitem pos)
  show ?case
    by (subst siftdown_loop.simps) (simp add: 1 Let_def)
qed

lemma mset_siftdown_loop:
  "pos < length heap \<Longrightarrow> mset (siftdown_loop heap sp item pos) = mset (heap[pos := item])"
proof (induction heap sp item pos rule: siftdown_loop.induct)
  case (1 heap startpos newitem pos)
  show ?case
  proof (cases "pos > startpos \<and> entry_lt newitem (heap ! ((pos - 1) div 2))")
    case True
    let ?pp = "(pos - 1) div 2"
    from True "1.prems" have pp: "?pp < length heap" "?pp < pos" by auto
    have "siftdown_loop heap startpos newitem pos
          = siftdown_loop (heap[pos := heap ! ?pp]) startpos newitem ?pp"
      using True by (subst siftdown_loop.simps) (simp add: Let_def)
    also have "mset \<dots> = mset (heap[pos := heap ! ?pp, ?pp := newitem])"
      using True pp by (intro "1.IH") auto
    also have "\<dots> = mset (heap[pos := newitem])"
      using pp "1.prems" by (intro mset_update_swap) auto
    finally show ?thesis .
  next
    case False
    then show ?thesis by (subst siftdown_loop.simps) (auto simp: Let_def)
  qed
qed

lemma length_siftdown [simp]: "length (siftdown heap sp pos) = length heap"
  by (simp add: siftdown_def)

lemma mset_siftdown: "pos < length heap \<Longrightarrow> mset (siftdown heap sp pos) = mset heap"
  by (simp add: siftdown_def mset_siftdown_loop)

lemma siftup_loop_props:
  assumes "pos < length heap" "endpos = length heap" "siftup_loop heap endpos pos = (h', p')"
  shows "length h' = length heap \<and> p' < length heap \<and> mset (h'[p' := x]) = mset (heap[pos := x])"
  using assms
proof (induction heap endpos pos arbitrary: h' p' rule: siftup_loop.induct)
  case (1 heap endpos pos)
  let ?c = "2 * pos + 1"
  show ?case
  proof (cases "?c < endpos")
    case False
    with "1.prems" show ?thesis
      by (subst (asm) siftup_loop.simps) (simp add: Let_def)
  next
    case True
    define c' where "c' = (if ?c + 1 < endpos \<and> \<not> entry_lt (heap ! ?c) (heap ! (?c + 1)) then ?c + 1 else ?c)"
    have c': "c' < length heap" "c' \<noteq> pos"
      using True "1.prems"(2) by (auto simp: c'_def)
    have step: "siftup_loop heap endpos pos = siftup_loop (heap[pos := heap ! c']) endpos c'"
      using True by (subst siftup_loop.simps) (simp add: Let_def c'_def)
    have "length h' = length (heap[pos := heap ! c']) \<and> p' < length (heap[pos := heap ! c'])
          \<and> mset (h'[p' := x]) = mset (heap[pos := heap ! c', c' := x])"
    proof (rule "1.IH"[OF refl True refl])
      show "c' = (if 2 * pos + 1 + 1 < endpos \<and> \<not> entry_lt (heap ! (2 * pos + 1)) (heap ! (2 * pos + 1 + 1))
                  then 2 * pos + 1 + 1 else 2 * pos + 1)"
        by (simp add: c'_def)
      show "c' < length (heap[pos := heap ! c'])" using c' by simp
      show "endpos = length (heap[pos := heap ! c'])" using "1.prems"(2) by simp
      show "siftup_loop (heap[pos := heap ! c']) endpos c' = (h', p')"
        using step "1.prems"(3) by simp
    qed
    moreover have "mset (heap[pos := heap ! c', c' := x]) = mset (heap[pos := x])"
      using c' "1.prems"(1) by (intro mset_update_swap) auto
    ultimately show ?thesis by simp
  qed
qed

lemma siftup_props:
  assumes "pos < length heap"
  shows "length (siftup heap pos) = length heap \<and> mset (siftup heap pos) = mset heap"
proof -
  obtain h' p' where sl: "siftup_loop heap (length heap) pos = (h', p')"
    by (cases "siftup_loop heap (length heap) pos")
  from siftup_loop_props[OF assms refl sl, of "heap ! pos"]
  have "length h' = length heap" "p' < length heap" "mset (h'[p' := heap ! pos]) = mset heap"
    by simp_all
  then show ?thesis
    by (simp add: siftup_def sl mset_siftdown)
qed

lemma mset_heappush: "mset (heappush heap item) = add_mset item (mset heap)"
  by (simp add: heappush_def mset_siftdown)

lemma length_heappush [simp]: "length (heappush heap item) = Suc (length heap)"
  by (simp add: heappush_def)

lemma mset_butlast_last: "xs \<noteq> [] \<Longrightarrow> mset xs = add_mset (last xs) (mset (butlast xs))"
  by (induction xs) auto

lemma heappop_props:
  assumes "heap \<noteq> []"
  shows "\<exists>x rest. heappop heap = Inr (x, rest) \<and> mset heap = add_mset x (mset rest)
           \<and> length heap = Suc (length rest)"
proof (cases "butlast heap = []")
  case True
  have "length heap = Suc (length (butlast heap))" using assms by simp
  with True assms show ?thesis
    using mset_butlast_last[OF assms] by (simp add: heappop_def Let_def)
next
  case False
  let ?b = "butlast heap"
  have pos: "0 < length ?b" using False by (cases ?b) simp_all
  have "mset (siftup (?b[0 := last heap]) 0) = mset (?b[0 := last heap])"
    "length (siftup (?b[0 := last heap]) 0) = length ?b"
    using siftup_props[of 0 "?b[0 := last heap]"] pos by simp_all
  moreover have "add_mset (?b ! 0) (mset (?b[0 := last heap])) = mset heap"
    using pos mset_butlast_last[OF assms] by (simp add: mset_update)
  ultimately show ?thesis using False assms
    by (simp add: heappop_def Let_def)
qed

lemma heapify_props: "length (heapify x) = length x \<and> mset (heapify x) = mset x"
proof -
  have "\<forall>i \<in> set is. i < length h \<Longrightarrow>
        length (fold (\<lambda>i h. siftup h i) is h) = length h \<and> mset (fold (\<lambda>i h. siftup h i) is h) = mset h"
    for "is" and h :: "'a entry list"
  proof (induction "is" arbitrary: h)
    case Nil
    then show ?case by simp
  next
    case (Cons i "is")
    then show ?case using siftup_props[of i h] by simp
  qed
  moreover have "\<forall>i \<in> set (rev [0..<length x div 2]). i < length x" by auto
  ultimately show ?thesis
    unfolding heapify_def by blast
qed

section \<open>The bookkeeping of the frontier\<close>

lemma first_index_Some:
  "first_index P xs = Some i \<Longrightarrow> i < length xs \<and> P (xs ! i)"
proof (induction xs arbitrary: i)
  case Nil
  then show ?case by simp
next
  case (Cons x xs)
  then show ?case by (auto split: if_splits)
qed

lemma first_index_None: "first_index P xs = None \<longleftrightarrow> (\<forall>x \<in> set xs. \<not> P x)"
  by (induction xs) auto

lemma mset_drop_at:
  assumes "i < length xs"
  shows "add_mset (xs ! i) (mset (butlast (xs[i := last xs]))) = mset xs"
proof -
  have ne: "xs \<noteq> []" using assms by auto
  let ?ys = "xs[i := last xs]"
  have "?ys \<noteq> []" using ne by simp
  then have "mset ?ys = add_mset (last ?ys) (mset (butlast ?ys))"
    by (rule mset_butlast_last)
  moreover have "last ?ys = last xs"
    using assms ne by (simp add: last_list_update)
  moreover have "mset ?ys = add_mset (last xs) (mset xs - {#xs ! i#})"
    using assms by (simp add: mset_update)
  ultimately have "mset (butlast ?ys) = mset xs - {#xs ! i#}" by simp
  then show ?thesis using assms by simp
qed

lemma distinct_map_mset:
  assumes "mset xs = mset ys"
  shows "distinct (map f xs) \<longleftrightarrow> distinct (map f ys)"
proof -
  have "mset (map f xs) = mset (map f ys)" using assms by (metis mset_map)
  then show ?thesis by (rule mset_eq_imp_distinct_iff)
qed

lemma frontier_ok_pop:
  assumes ok: "frontier_ok key fr fs ex" and m: "mset fr = add_mset x (mset rest)"
  shows "frontier_ok key rest (fs(entry_key key x := None)) ex"
    and "entry_key key x \<notin> ex"
    and "fs (entry_key key x) = Some (g (snd x), fst x)"
    and "entry_key key x \<notin> entry_key key ` set rest"
proof -
  have m': "mset fr = mset (x # rest)" using m by simp
  have s: "set fr = insert x (set rest)" using mset_eq_setD[OF m'] by simp
  have d: "distinct (map (entry_key key) (x # rest))"
    using ok distinct_map_mset[OF m', of "entry_key key"] by (simp add: frontier_ok_def)
  show 4: "entry_key key x \<notin> entry_key key ` set rest" using d by simp
  show "entry_key key x \<notin> ex" using ok s by (simp add: frontier_ok_def)
  show "fs (entry_key key x) = Some (g (snd x), fst x)" using ok s by (simp add: frontier_ok_def)
  have 5: "\<forall>e \<in> set rest. entry_key key e \<noteq> entry_key key x" using 4 by (metis image_eqI)
  have "dom (fs(entry_key key x := None)) = entry_key key ` set rest"
    using ok s 4 by (auto simp: frontier_ok_def)
  moreover have "\<forall>e \<in> set rest. (fs(entry_key key x := None)) (entry_key key e) = Some (g (snd e), fst e)"
    using ok s 5 by (simp add: frontier_ok_def)
  ultimately show "frontier_ok key rest (fs(entry_key key x := None)) ex"
    using ok s d by (simp add: frontier_ok_def)
qed

lemma frontier_ok_push:
  assumes ok: "frontier_ok key fr fs ex" and m: "mset fr' = add_mset x (mset fr)"
    and new: "fs (entry_key key x) = None" and nex: "entry_key key x \<notin> ex"
  shows "frontier_ok key fr' (fs(entry_key key x \<mapsto> (g (snd x), fst x))) ex"
proof -
  have m': "mset fr' = mset (x # fr)" using m by simp
  have s: "set fr' = insert x (set fr)" using mset_eq_setD[OF m'] by simp
  have notin: "entry_key key x \<notin> entry_key key ` set fr"
    using ok new by (auto simp: frontier_ok_def)
  have d: "distinct (map (entry_key key) fr')"
    using ok notin distinct_map_mset[OF m', of "entry_key key"] by (simp add: frontier_ok_def)
  have ne: "\<forall>e \<in> set fr. entry_key key e \<noteq> entry_key key x" using notin by (metis image_eqI)
  show ?thesis
    using ok s d ne nex by (simp add: frontier_ok_def)
qed

lemma frontier_ok_explore:
  assumes ok: "frontier_ok key fr fs ex" and "k \<notin> entry_key key ` set fr"
  shows "frontier_ok key fr fs (insert k ex)"
  using assms by (auto simp: frontier_ok_def)

section \<open>What the loop does with one child\<close>

lemma remove_from_frontier_ok:
  assumes ok: "frontier_ok key fr fs ex" and present: "fs (key s) = Some v"
  shows "\<exists>old fr1. remove_from_frontier key fr fs s = Inr (fr1, fs(key s := None)) \<and>
           old \<in> set fr \<and> entry_key key old = key s \<and>
           mset fr = add_mset old (mset fr1) \<and>
           frontier_ok key fr1 (fs(key s := None)) ex"
proof -
  let ?P = "\<lambda>(f, node). key (state node) = key s"
  have "key s \<in> entry_key key ` set fr"
    using ok present by (auto simp: frontier_ok_def)
  then obtain e where e: "e \<in> set fr" "?P e"
    by (auto simp: entry_key_def)
  then have "first_index ?P fr \<noteq> None"
    by (simp only: first_index_None) blast
  then obtain i where i: "first_index ?P fr = Some i" by auto
  from first_index_Some[OF i] have il: "i < length fr" and ik: "entry_key key (fr ! i) = key s"
    by (auto simp: entry_key_def split: prod.splits)
  let ?fr1 = "heapify (butlast (fr[i := last fr]))"
  have m: "mset fr = add_mset (fr ! i) (mset ?fr1)"
    using mset_drop_at[OF il] heapify_props[of "butlast (fr[i := last fr])"] by simp
  have r: "remove_from_frontier key fr fs s = Inr (?fr1, fs(key s := None))"
    using i present by (simp add: remove_from_frontier_def Let_def)
  have "frontier_ok key ?fr1 (fs(entry_key key (fr ! i) := None)) ex"
    using ok m by (rule frontier_ok_pop)
  then show ?thesis
    using r il ik m by (intro exI[of _ "fr ! i"] exI[of _ ?fr1]) simp
qed

text \<open>The search state after the child has been counted.\<close>

lemma consider_child_explored:
  assumes "key (state child) \<in> explored st"
  shows "consider_child slv key child st =
           Inr (st\<lparr>self_metrics := (self_metrics st)
                  \<lparr>nodes_generated := nodes_generated (self_metrics st) + 1\<rparr>\<rparr>)"
  using assms by (simp add: consider_child_def Let_def)

lemma consider_child_not_better:
  assumes "key (state child) \<notin> explored st"
    and "frontier_states st (key (state child)) = Some (fg, ff)" and "\<not> g child < fg"
  shows "consider_child slv key child st =
           Inr (st\<lparr>self_metrics := (self_metrics st)
                  \<lparr>nodes_generated := nodes_generated (self_metrics st) + 1\<rparr>\<rparr>)"
  using assms by (simp add: consider_child_def Let_def)

lemma consider_child_new:
  assumes "key (state child) \<notin> explored st"
    and "frontier_states st (key (state child)) = None"
  shows "consider_child slv key child st =
           Inr (st\<lparr>frontier := heappush (frontier st) (solver_f slv child, child),
                   frontier_states := (frontier_states st)
                      (key (state child) \<mapsto> (g child, solver_f slv child)),
                   self_metrics := (self_metrics st)
                     \<lparr>nodes_generated := nodes_generated (self_metrics st) + 1,
                      max_frontier_size :=
                        max (max_frontier_size (self_metrics st)) (Suc (length (frontier st)))\<rparr>\<rparr>)"
  using assms by (simp add: consider_child_def Let_def)

lemma consider_child_better:
  assumes inv: "frontier_inv key st"
    and nex: "key (state child) \<notin> explored st"
    and fs: "frontier_states st (key (state child)) = Some (fg, ff)" and lt: "g child < fg"
  shows "\<exists>old fr1.
           consider_child slv key child st =
             Inr (st\<lparr>frontier := heappush fr1 (solver_f slv child, child),
                     frontier_states := (frontier_states st)
                        (key (state child) \<mapsto> (g child, solver_f slv child)),
                     self_metrics := (self_metrics st)
                       \<lparr>nodes_generated := nodes_generated (self_metrics st) + 1\<rparr>\<rparr>) \<and>
           old \<in> set (frontier st) \<and> entry_key key old = key (state child) \<and>
           mset (frontier st) = add_mset old (mset fr1) \<and>
           frontier_ok key fr1 ((frontier_states st)(key (state child) := None)) (explored st)"
proof -
  from inv have ok: "frontier_ok key (frontier st) (frontier_states st) (explored st)"
    by (simp add: frontier_inv_def)
  from remove_from_frontier_ok[OF ok fs]
  obtain old fr1 where r:
    "remove_from_frontier key (frontier st) (frontier_states st) (state child)
       = Inr (fr1, (frontier_states st)(key (state child) := None))"
    "old \<in> set (frontier st)" "entry_key key old = key (state child)"
    "mset (frontier st) = add_mset old (mset fr1)"
    "frontier_ok key fr1 ((frontier_states st)(key (state child) := None)) (explored st)"
    by blast
  show ?thesis
    using nex fs lt r
    by (intro exI[of _ old] exI[of _ fr1]) (simp add: consider_child_def Let_def)
qed

text \<open>Every case at once: what one child can change.\<close>

lemma consider_child_inv:
  assumes inv: "frontier_inv key st"
  shows "\<exists>st' b. consider_child slv key child st = Inr st' \<and>
           frontier_inv key st' \<and>
           explored st' = explored st \<and>
           branching_factors st' = branching_factors st \<and>
           ticks st' = ticks st \<and>
           self_metrics st' = (self_metrics st)
              \<lparr>nodes_generated := nodes_generated (self_metrics st) + 1, max_frontier_size := b\<rparr> \<and>
           length (frontier st) \<le> length (frontier st') \<and>
           length (frontier st') \<le> Suc (length (frontier st)) \<and>
           set (frontier st') \<subseteq> insert (solver_f slv child, child) (set (frontier st))"
proof -
  let ?k = "key (state child)"
  let ?m1 = "(self_metrics st)\<lparr>nodes_generated := nodes_generated (self_metrics st) + 1\<rparr>"
  from inv have ok: "frontier_ok key (frontier st) (frontier_states st) (explored st)"
    by (simp add: frontier_inv_def)
  consider (explored) "?k \<in> explored st"
    | (new) "?k \<notin> explored st" "frontier_states st ?k = None"
    | (keep) fg ff where "?k \<notin> explored st" "frontier_states st ?k = Some (fg, ff)" "\<not> g child < fg"
    | (better) fg ff where "?k \<notin> explored st" "frontier_states st ?k = Some (fg, ff)" "g child < fg"
    by (cases "frontier_states st ?k") auto
  then show ?thesis
  proof cases
    case explored
    let ?st' = "st\<lparr>self_metrics := ?m1\<rparr>"
    have "consider_child slv key child st = Inr ?st'"
      using explored by (rule consider_child_explored)
    moreover have "frontier_inv key ?st'" using inv by (simp add: frontier_inv_def)
    ultimately show ?thesis
      by (intro exI[of _ ?st'] exI[of _ "max_frontier_size (self_metrics st)"]) auto
  next
    case keep
    let ?st' = "st\<lparr>self_metrics := ?m1\<rparr>"
    have "consider_child slv key child st = Inr ?st'"
      using keep by (rule consider_child_not_better)
    moreover have "frontier_inv key ?st'" using inv by (simp add: frontier_inv_def)
    ultimately show ?thesis
      by (intro exI[of _ ?st'] exI[of _ "max_frontier_size (self_metrics st)"]) auto
  next
    case new
    let ?x = "(solver_f slv child, child)"
    have m: "mset (heappush (frontier st) ?x) = add_mset ?x (mset (frontier st))"
      by (rule mset_heappush)
    have "frontier_ok key (heappush (frontier st) ?x)
            ((frontier_states st)(entry_key key ?x \<mapsto> (g (snd ?x), fst ?x))) (explored st)"
      using ok m new by (intro frontier_ok_push) (simp_all add: entry_key_def)
    then have ok': "frontier_ok key (heappush (frontier st) ?x)
            ((frontier_states st)(?k \<mapsto> (g child, solver_f slv child))) (explored st)"
      by (simp add: entry_key_def)
    have s: "set (heappush (frontier st) ?x) = insert ?x (set (frontier st))"
      using mset_eq_setD[of "heappush (frontier st) ?x" "?x # frontier st"] m by simp
    let ?b = "max (max_frontier_size (self_metrics st)) (Suc (length (frontier st)))"
    let ?st' = "st\<lparr>frontier := heappush (frontier st) ?x,
                   frontier_states := (frontier_states st)(?k \<mapsto> (g child, solver_f slv child)),
                   self_metrics := (self_metrics st)
                     \<lparr>nodes_generated := nodes_generated (self_metrics st) + 1,
                      max_frontier_size := ?b\<rparr>\<rparr>"
    have "consider_child slv key child st = Inr ?st'"
      using new by (rule consider_child_new)
    moreover have "frontier_inv key ?st'" using ok' by (simp add: frontier_inv_def)
    ultimately show ?thesis
      using s by (intro exI[of _ ?st'] exI[of _ ?b]) auto
  next
    case better
    from consider_child_better[where slv=slv, OF inv better]
    obtain old fr1 where r:
      "consider_child slv key child st =
         Inr (st\<lparr>frontier := heappush fr1 (solver_f slv child, child),
                 frontier_states := (frontier_states st)(?k \<mapsto> (g child, solver_f slv child)),
                 self_metrics := ?m1\<rparr>)"
      "old \<in> set (frontier st)" "entry_key key old = ?k"
      "mset (frontier st) = add_mset old (mset fr1)"
      "frontier_ok key fr1 ((frontier_states st)(?k := None)) (explored st)"
      by blast
    let ?x = "(solver_f slv child, child)"
    have m: "mset (heappush fr1 ?x) = add_mset ?x (mset fr1)"
      by (rule mset_heappush)
    have "frontier_ok key (heappush fr1 ?x)
            (((frontier_states st)(?k := None))(entry_key key ?x \<mapsto> (g (snd ?x), fst ?x))) (explored st)"
      using r(5) m better(1) by (intro frontier_ok_push) (simp_all add: entry_key_def)
    then have ok': "frontier_ok key (heappush fr1 ?x)
            ((frontier_states st)(?k \<mapsto> (g child, solver_f slv child))) (explored st)"
      by (simp add: entry_key_def)
    have len: "length (frontier st) = Suc (length fr1)"
      using r(4) by (metis size_mset size_add_mset)
    have "set (frontier st) = insert old (set fr1)"
      using mset_eq_setD[of "frontier st" "old # fr1"] r(4) by simp
    moreover have "set (heappush fr1 ?x) = insert ?x (set fr1)"
      using mset_eq_setD[of "heappush fr1 ?x" "?x # fr1"] m by simp
    ultimately have s: "set (heappush fr1 ?x) \<subseteq> insert ?x (set (frontier st))" by auto
    let ?st' = "st\<lparr>frontier := heappush fr1 ?x,
                   frontier_states := (frontier_states st)(?k \<mapsto> (g child, solver_f slv child)),
                   self_metrics := ?m1\<rparr>"
    have "frontier_inv key ?st'" using ok' by (simp add: frontier_inv_def)
    then show ?thesis
      using r(1) s len
      by (intro exI[of _ ?st'] exI[of _ "max_frontier_size (self_metrics st)"]) auto
  qed
qed

section \<open>The successor loop\<close>

lemma generate_successors_inv:
  assumes "frontier_inv (state_key p) st"
    and "generate_successors slv p node acts st = Inr st'"
  shows "frontier_inv (state_key p) st' \<and>
         explored st' = explored st \<and>
         branching_factors st' = branching_factors st \<and>
         ticks st' = ticks st \<and>
         (\<exists>b. self_metrics st' = (self_metrics st)
              \<lparr>nodes_generated := nodes_generated (self_metrics st) + length acts,
               max_frontier_size := b\<rparr>) \<and>
         length (frontier st) \<le> length (frontier st') \<and>
         length (frontier st') \<le> length (frontier st) + length acts \<and>
         (\<forall>e \<in> set (frontier st').
            e \<in> set (frontier st) \<or>
            (\<exists>a \<in> set acts. \<exists>cs c. result p (state node) a = Inr (cs, c) \<and>
                snd e = Node_init cs (Some node) (Some a) c))"
  using assms
proof (induction acts arbitrary: st)
  case Nil
  then show ?case
    by (auto intro: exI[of _ "max_frontier_size (self_metrics st)"])
next
  case (Cons a acts)
  from Cons.prems(2) obtain cs c where res: "result p (state node) a = Inr (cs, c)"
    by (auto split: sum.splits)
  let ?child = "Node_init cs (Some node) (Some a) c"
  from consider_child_inv[OF Cons.prems(1), of slv ?child]
  obtain st1 b1 where st1:
    "consider_child slv (state_key p) ?child st = Inr st1"
    "frontier_inv (state_key p) st1"
    "explored st1 = explored st"
    "branching_factors st1 = branching_factors st"
    "ticks st1 = ticks st"
    "self_metrics st1 = (self_metrics st)
       \<lparr>nodes_generated := nodes_generated (self_metrics st) + 1, max_frontier_size := b1\<rparr>"
    "length (frontier st) \<le> length (frontier st1)"
    "length (frontier st1) \<le> Suc (length (frontier st))"
    "set (frontier st1) \<subseteq> insert (solver_f slv ?child, ?child) (set (frontier st))"
    by blast
  from Cons.prems(2) res st1(1) have rest: "generate_successors slv p node acts st1 = Inr st'"
    by simp
  from Cons.IH[OF st1(2) rest] obtain b where ih:
    "frontier_inv (state_key p) st'"
    "explored st' = explored st1"
    "branching_factors st' = branching_factors st1"
    "ticks st' = ticks st1"
    "self_metrics st' = (self_metrics st1)
       \<lparr>nodes_generated := nodes_generated (self_metrics st1) + length acts, max_frontier_size := b\<rparr>"
    "length (frontier st1) \<le> length (frontier st')"
    "length (frontier st') \<le> length (frontier st1) + length acts"
    "\<forall>e \<in> set (frontier st').
        e \<in> set (frontier st1) \<or>
        (\<exists>a \<in> set acts. \<exists>cs c. result p (state node) a = Inr (cs, c) \<and>
            snd e = Node_init cs (Some node) (Some a) c)"
    by blast
  have m: "self_metrics st' = (self_metrics st)
      \<lparr>nodes_generated := nodes_generated (self_metrics st) + length (a # acts),
       max_frontier_size := b\<rparr>"
    using ih(5) st1(6) by simp
  have entries: "\<forall>e \<in> set (frontier st').
        e \<in> set (frontier st) \<or>
        (\<exists>a' \<in> set (a # acts). \<exists>cs c. result p (state node) a' = Inr (cs, c) \<and>
            snd e = Node_init cs (Some node) (Some a') c)"
  proof
    fix e assume "e \<in> set (frontier st')"
    with ih(8) consider "e \<in> set (frontier st1)"
      | "\<exists>a \<in> set acts. \<exists>cs c. result p (state node) a = Inr (cs, c) \<and>
            snd e = Node_init cs (Some node) (Some a) c"
      by blast
    then show "e \<in> set (frontier st) \<or>
        (\<exists>a' \<in> set (a # acts). \<exists>cs c. result p (state node) a' = Inr (cs, c) \<and>
            snd e = Node_init cs (Some node) (Some a') c)"
    proof cases
      case 1
      with st1(9) have "e = (solver_f slv ?child, ?child) \<or> e \<in> set (frontier st)" by auto
      then show ?thesis using res by auto
    next
      case 2
      then show ?thesis by auto
    qed
  qed
  show ?case
    using ih(1-4) st1(3-5) st1(7,8) ih(6,7) m entries
    by (intro conjI exI[of _ b]) simp_all
qed

text \<open>The successor loop raises only what \<open>result\<close> raises.\<close>

lemma generate_successors_error:
  assumes "frontier_inv (state_key p) st"
    and "generate_successors slv p node acts st = Inl e"
  shows "\<exists>a \<in> set acts. result p (state node) a = Inl e"
  using assms
proof (induction acts arbitrary: st)
  case Nil
  then show ?case by simp
next
  case (Cons a acts)
  show ?case
  proof (cases "result p (state node) a")
    case (Inl e')
    with Cons.prems(2) show ?thesis by simp
  next
    case (Inr r)
    obtain cs c where r: "r = (cs, c)" by (cases r)
    let ?child = "Node_init cs (Some node) (Some a) c"
    from consider_child_inv[OF Cons.prems(1), of slv ?child]
    obtain st1 where st1: "consider_child slv (state_key p) ?child st = Inr st1"
      "frontier_inv (state_key p) st1" by blast
    with Cons.prems(2) Inr r have "generate_successors slv p node acts st1 = Inl e" by simp
    from Cons.IH[OF st1(2) this] show ?thesis by auto
  qed
qed

section \<open>One pass of the while loop\<close>

lemma heappop_frontier:
  assumes inv: "frontier_inv key st" and ne: "frontier st \<noteq> []"
  shows "\<exists>f node rest.
           heappop (frontier st) = Inr ((f, node), rest) \<and>
           (f, node) \<in> set (frontier st) \<and>
           set rest \<subseteq> set (frontier st) \<and>
           length (frontier st) = Suc (length rest) \<and>
           frontier_states st (key (state node)) = Some (g node, f) \<and>
           key (state node) \<notin> explored st \<and>
           frontier_ok key rest ((frontier_states st)(key (state node) := None)) (explored st) \<and>
           frontier_ok key rest ((frontier_states st)(key (state node) := None))
              (insert (key (state node)) (explored st))"
proof -
  from heappop_props[OF ne] obtain x rest where p:
    "heappop (frontier st) = Inr (x, rest)" "mset (frontier st) = add_mset x (mset rest)"
    "length (frontier st) = Suc (length rest)" by blast
  obtain f node where x: "x = (f, node)" by (cases x)
  from inv have ok: "frontier_ok key (frontier st) (frontier_states st) (explored st)"
    by (simp add: frontier_inv_def)
  note pop = frontier_ok_pop[OF ok p(2)]
  have s: "set (frontier st) = insert x (set rest)"
    using mset_eq_setD[of "frontier st" "x # rest"] p(2) by simp
  have "frontier_ok key rest ((frontier_states st)(entry_key key x := None))
          (insert (entry_key key x) (explored st))"
    using pop(1) pop(4) by (rule frontier_ok_explore)
  then show ?thesis
    using p x pop s by (intro exI[of _ f] exI[of _ node] exI[of _ rest]) (auto simp: entry_key_def)
qed

text \<open>A pass that hands a state on to the loop: what it has done.\<close>

lemma iteration_Next:
  assumes inv: "frontier_inv (state_key p) st" and ne: "frontier st \<noteq> []"
    and it: "iteration slv p timeout_secs clock st = Next st'"
  shows "\<exists>f node acts b c.
           (f, node) \<in> set (frontier st) \<and>
           \<not> goal_test p (state node) \<and>
           actions p (state node) = Inr acts \<and>
           state_key p (state node) \<notin> explored st \<and>
           explored st' = insert (state_key p (state node)) (explored st) \<and>
           branching_factors st' = branching_factors st @ [length acts] \<and>
           ticks st' = Suc (ticks st) \<and>
           \<not> clock (ticks st) - clock 0 > timeout_secs \<and>
           self_metrics st' = (self_metrics st)
             \<lparr>nodes_expanded := nodes_expanded (self_metrics st) + 1,
              nodes_generated := nodes_generated (self_metrics st) + length acts,
              max_frontier_size := b, max_memory_nodes := c\<rparr> \<and>
           Suc (length (frontier st')) \<le> length (frontier st) + length acts \<and>
           frontier_inv (state_key p) st' \<and>
           (\<forall>e \<in> set (frontier st').
              e \<in> set (frontier st) \<or>
              (\<exists>a \<in> set acts. \<exists>cs c. result p (state node) a = Inr (cs, c) \<and>
                  snd e = Node_init cs (Some node) (Some a) c))"
proof -
  let ?key = "state_key p"
  from heappop_frontier[OF inv ne] obtain f node rest where pop:
    "heappop (frontier st) = Inr ((f, node), rest)"
    "(f, node) \<in> set (frontier st)"
    "set rest \<subseteq> set (frontier st)"
    "length (frontier st) = Suc (length rest)"
    "frontier_states st (?key (state node)) = Some (g node, f)"
    "?key (state node) \<notin> explored st"
    "frontier_ok ?key rest ((frontier_states st)(?key (state node) := None))
       (insert (?key (state node)) (explored st))"
    by blast
  let ?c = "max (max_memory_nodes (self_metrics st)) (length (frontier st) + card (explored st))"
  let ?m = "(self_metrics st)\<lparr>max_memory_nodes := ?c,
              nodes_expanded := nodes_expanded (self_metrics st) + 1\<rparr>"
  let ?st3 = "st\<lparr>ticks := Suc (ticks st), frontier := rest,
                frontier_states := (frontier_states st)(?key (state node) := None),
                self_metrics := ?m,
                explored := insert (?key (state node)) (explored st)\<rparr>"
  from it have nt: "\<not> clock (ticks st) - clock 0 > timeout_secs"
    by (auto simp: iteration_def Let_def split: if_splits)
  from it nt pop(1,5) have ng: "\<not> goal_test p (state node)"
    by (auto simp: iteration_def Let_def split: if_splits prod.splits)
  from it nt pop(1,5) ng obtain acts where acts: "actions p (state node) = Inr acts"
    by (cases "actions p (state node)") (auto simp: iteration_def Let_def)
  let ?st4 = "?st3\<lparr>branching_factors := branching_factors st @ [length acts]\<rparr>"
  from it nt pop(1,5) ng acts have gen: "generate_successors slv p node acts ?st4 = Inr st'"
    by (auto simp: iteration_def Let_def split: sum.splits)
  have inv4: "frontier_inv ?key ?st4"
    using pop(7) by (simp add: frontier_inv_def)
  from generate_successors_inv[OF inv4 gen] obtain b where g:
    "frontier_inv ?key st'"
    "explored st' = explored ?st4"
    "branching_factors st' = branching_factors ?st4"
    "ticks st' = ticks ?st4"
    "self_metrics st' = (self_metrics ?st4)
        \<lparr>nodes_generated := nodes_generated (self_metrics ?st4) + length acts,
         max_frontier_size := b\<rparr>"
    "length (frontier st') \<le> length (frontier ?st4) + length acts"
    "\<forall>e \<in> set (frontier st').
        e \<in> set (frontier ?st4) \<or>
        (\<exists>a \<in> set acts. \<exists>cs c. result p (state node) a = Inr (cs, c) \<and>
            snd e = Node_init cs (Some node) (Some a) c)"
    by blast
  have entries: "\<forall>e \<in> set (frontier st').
        e \<in> set (frontier st) \<or>
        (\<exists>a \<in> set acts. \<exists>cs c. result p (state node) a = Inr (cs, c) \<and>
            snd e = Node_init cs (Some node) (Some a) c)"
    using g(7) pop(3) by auto
  show ?thesis
    using pop(2) ng acts pop(6) g(1-6) nt entries pop(4)
    by (intro exI[of _ f] exI[of _ node] exI[of _ acts] exI[of _ b] exI[of _ ?c]) simp
qed

text \<open>A pass that returns from \<open>solve\<close>: the time limit, or a goal node.\<close>

lemma iteration_Return:
  assumes inv: "frontier_inv (state_key p) st" and ne: "frontier st \<noteq> []"
    and it: "iteration slv p timeout_secs clock st = Return (r, stf)"
  shows "(clock (ticks st) - clock 0 > timeout_secs \<and>
          r = (None, None, (self_metrics st)
                 \<lparr>timeout := True, total_time := clock (Suc (ticks st)) - clock 0\<rparr>) \<and>
          stf = st\<lparr>self_metrics := snd (snd r), ticks := Suc (Suc (ticks st))\<rparr>) \<or>
         (\<not> clock (ticks st) - clock 0 > timeout_secs \<and>
          (\<exists>f node c.
             (f, node) \<in> set (frontier st) \<and> goal_test p (state node) \<and>
             fst r = Some (fst (extract_solution node)) \<and>
             fst (snd r) = Some (snd (extract_solution node)) \<and>
             snd (snd r) =
               (let m1 = (self_metrics st)
                      \<lparr>max_memory_nodes := c,
                       nodes_expanded := nodes_expanded (self_metrics st) + 1,
                       success := True,
                       total_time := clock (Suc (ticks st)) - clock 0,
                       solution_length := length (snd (extract_solution node))\<rparr>
                in if branching_factors st \<noteq> []
                   then m1\<lparr>avg_branching_factor :=
                            real (sum_list (branching_factors st)) / real (length (branching_factors st))\<rparr>
                   else m1) \<and>
             explored stf = explored st \<and>
             branching_factors stf = branching_factors st \<and>
             self_metrics stf = snd (snd r) \<and>
             length (frontier st) = Suc (length (frontier stf))))"
proof (cases "clock (ticks st) - clock 0 > timeout_secs")
  case True
  with it show ?thesis
    by (auto simp: iteration_def Let_def)
next
  case nt: False
  let ?key = "state_key p"
  from heappop_frontier[OF inv ne] obtain f node rest where pop:
    "heappop (frontier st) = Inr ((f, node), rest)"
    "(f, node) \<in> set (frontier st)"
    "length (frontier st) = Suc (length rest)"
    "frontier_states st (?key (state node)) = Some (g node, f)"
    by blast
  have gt: "goal_test p (state node)"
  proof (rule ccontr)
    assume "\<not> goal_test p (state node)"
    with it nt pop(1,4) show False
      by (auto simp: iteration_def Let_def split: sum.splits)
  qed
  let ?c = "max (max_memory_nodes (self_metrics st)) (length (frontier st) + card (explored st))"
  obtain path acts where ex: "extract_solution node = (path, acts)"
    by (cases "extract_solution node")
  from it nt pop(1,4) gt ex show ?thesis
    by (intro disjI2 conjI exI[of _ f] exI[of _ node] exI[of _ ?c])
       (auto simp: iteration_def Let_def pop(2,3))
qed

text \<open>A pass raises only what \<open>actions\<close> or \<open>result\<close> raise.\<close>

lemma iteration_Raise:
  assumes inv: "frontier_inv (state_key p) st" and ne: "frontier st \<noteq> []"
    and it: "iteration slv p timeout_secs clock st = Raise e"
  shows "\<exists>f node. (f, node) \<in> set (frontier st) \<and>
           (actions p (state node) = Inl e \<or>
            (\<exists>acts. actions p (state node) = Inr acts \<and>
               (\<exists>a \<in> set acts. result p (state node) a = Inl e)))"
proof -
  let ?key = "state_key p"
  from heappop_frontier[OF inv ne] obtain f node rest where pop:
    "heappop (frontier st) = Inr ((f, node), rest)"
    "(f, node) \<in> set (frontier st)"
    "frontier_states st (?key (state node)) = Some (g node, f)"
    "frontier_ok ?key rest ((frontier_states st)(?key (state node) := None))
       (insert (?key (state node)) (explored st))"
    by blast
  from it have nt: "\<not> clock (ticks st) - clock 0 > timeout_secs"
    by (auto simp: iteration_def Let_def split: if_splits)
  from it nt pop(1,3) have ng: "\<not> goal_test p (state node)"
    by (auto simp: iteration_def Let_def split: if_splits prod.splits)
  show ?thesis
  proof (cases "actions p (state node)")
    case (Inl e')
    with it nt pop(1,3) ng have "e' = e" by (simp add: iteration_def Let_def)
    with Inl pop(2) show ?thesis by blast
  next
    case (Inr acts)
    let ?c = "max (max_memory_nodes (self_metrics st)) (length (frontier st) + card (explored st))"
    let ?m = "(self_metrics st)\<lparr>max_memory_nodes := ?c,
                nodes_expanded := nodes_expanded (self_metrics st) + 1\<rparr>"
    let ?st4 = "st\<lparr>ticks := Suc (ticks st), frontier := rest,
                  frontier_states := (frontier_states st)(?key (state node) := None),
                  self_metrics := ?m,
                  explored := insert (?key (state node)) (explored st),
                  branching_factors := branching_factors st @ [length acts]\<rparr>"
    from it nt pop(1,3) ng Inr have gen: "generate_successors slv p node acts ?st4 = Inl e"
      by (auto simp: iteration_def Let_def split: sum.splits)
    have inv4: "frontier_inv ?key ?st4"
      using pop(4) by (simp add: frontier_inv_def)
    from generate_successors_error[OF inv4 gen] Inr pop(2) show ?thesis by blast
  qed
qed

section \<open>The while loop\<close>

lemma heappush_Nil: "heappush [] x = [x]"
  by (simp add: heappush_def siftdown_def siftdown_loop.simps)

lemma frontier_search_init:
  "frontier (search_init slv p) =
     [(solver_f slv (Node (get_initial_state p) None None 0), Node (get_initial_state p) None None 0)]"
  by (simp add: search_init_def Let_def Node_init_def heappush_Nil)

lemma frontier_inv_search_init: "frontier_inv (state_key p) (search_init slv p)"
  by (simp add: frontier_inv_def frontier_ok_def search_init_def Let_def Node_init_def
      heappush_Nil entry_key_def)

text \<open>More fuel does not change a result.\<close>

lemma search_loop_mono:
  "search_loop n slv p timeout_secs clock st = Some res \<Longrightarrow>
   search_loop (n + k) slv p timeout_secs clock st = Some res"
proof (induction n arbitrary: st)
  case 0
  then show ?case by simp
next
  case (Suc n)
  then show ?case
    by (cases "iteration slv p timeout_secs clock st") (auto simp: Let_def split: if_splits)
qed

text \<open>
  A result of the loop comes from a last search state, reached by complete passes:
  there the frontier is empty, or the pass returns or raises.
\<close>

lemma search_loop_last:
  assumes "search_loop n slv p timeout_secs clock st = Some res"
  shows "\<exists>k stl. k < n \<and> loop_state k slv p timeout_secs clock st = Some stl \<and>
           (if frontier stl = []
            then res = Inr ((None, None, (self_metrics stl)\<lparr>total_time := clock (ticks stl) - clock 0\<rparr>),
                            stl\<lparr>self_metrics := (self_metrics stl)\<lparr>total_time := clock (ticks stl) - clock 0\<rparr>,
                                ticks := Suc (ticks stl)\<rparr>)
            else (\<exists>r. iteration slv p timeout_secs clock stl = Return r \<and> res = Inr r) \<or>
                 (\<exists>e. iteration slv p timeout_secs clock stl = Raise e \<and> res = Inl e))"
  using assms
proof (induction n arbitrary: st)
  case 0
  then show ?case by simp
next
  case (Suc n)
  show ?case
  proof (cases "frontier st = []")
    case True
    with Suc.prems show ?thesis
      by (intro exI[of _ 0] exI[of _ st]) (auto simp: Let_def)
  next
    case ne: False
    show ?thesis
    proof (cases "iteration slv p timeout_secs clock st")
      case (Return r)
      with Suc.prems ne show ?thesis
        by (intro exI[of _ 0] exI[of _ st]) auto
    next
      case (Raise e)
      with Suc.prems ne show ?thesis
        by (intro exI[of _ 0] exI[of _ st]) auto
    next
      case (Next st')
      with Suc.prems ne have "search_loop n slv p timeout_secs clock st' = Some res" by simp
      from Suc.IH[OF this] obtain k stl where
        "k < n" "loop_state k slv p timeout_secs clock st' = Some stl"
        "(if frontier stl = []
            then res = Inr ((None, None, (self_metrics stl)\<lparr>total_time := clock (ticks stl) - clock 0\<rparr>),
                            stl\<lparr>self_metrics := (self_metrics stl)\<lparr>total_time := clock (ticks stl) - clock 0\<rparr>,
                                ticks := Suc (ticks stl)\<rparr>)
            else (\<exists>r. iteration slv p timeout_secs clock stl = Return r \<and> res = Inr r) \<or>
                 (\<exists>e. iteration slv p timeout_secs clock stl = Raise e \<and> res = Inl e))"
        by blast
      with Next ne show ?thesis
        by (intro exI[of _ "Suc k"] exI[of _ stl]) simp
    qed
  qed
qed

text \<open>An invariant of the passes holds in every state the loop reaches.\<close>

lemma loop_state_rule:
  assumes "loop_state k slv p timeout_secs clock st = Some st'"
    and "I st" and "frontier_inv (state_key p) st"
    and step: "\<And>s s'. I s \<Longrightarrow> frontier_inv (state_key p) s \<Longrightarrow> frontier s \<noteq> [] \<Longrightarrow>
                 iteration slv p timeout_secs clock s = Next s' \<Longrightarrow> I s'"
  shows "I st' \<and> frontier_inv (state_key p) st'"
  using assms(1-3)
proof (induction k arbitrary: st)
  case 0
  then show ?case by simp
next
  case (Suc k)
  from Suc.prems(1) have ne: "frontier st \<noteq> []" by (auto split: if_splits)
  from Suc.prems(1) ne obtain s1 where s1: "iteration slv p timeout_secs clock st = Next s1"
    "loop_state k slv p timeout_secs clock s1 = Some st'"
    by (cases "iteration slv p timeout_secs clock st") auto
  have "I s1" using step[OF Suc.prems(2,3) ne s1(1)] .
  moreover have "frontier_inv (state_key p) s1"
    using iteration_Next[OF Suc.prems(3) ne s1(1)] by blast
  ultimately show ?case using Suc.IH[OF s1(2)] by blast
qed

lemma loop_state_frontier_inv:
  assumes "loop_state k slv p timeout_secs clock st = Some st'" "frontier_inv (state_key p) st"
  shows "frontier_inv (state_key p) st'"
  using loop_state_rule[OF assms(1), of "\<lambda>s. True"] assms(2) by simp

text \<open>Every complete pass explores one state that was not explored before.\<close>

lemma loop_state_explored:
  assumes "loop_state k slv p timeout_secs clock st = Some st'" "frontier_inv (state_key p) st"
  shows "card (explored st') = card (explored st) + k \<and> explored st \<subseteq> explored st' \<and>
         length (branching_factors st') = length (branching_factors st) + k"
  using assms
proof (induction k arbitrary: st)
  case 0
  then show ?case by simp
next
  case (Suc k)
  from Suc.prems(1) have ne: "frontier st \<noteq> []" by (auto split: if_splits)
  from Suc.prems(1) ne obtain s1 where s1: "iteration slv p timeout_secs clock st = Next s1"
    "loop_state k slv p timeout_secs clock s1 = Some st'"
    by (cases "iteration slv p timeout_secs clock st") auto
  from iteration_Next[OF Suc.prems(2) ne s1(1)] obtain node and acts :: "string list" where n:
    "state_key p (state node) \<notin> explored st"
    "explored s1 = insert (state_key p (state node)) (explored st)"
    "branching_factors s1 = branching_factors st @ [length acts]"
    "frontier_inv (state_key p) s1"
    by blast
  have fin: "finite (explored st)"
    using Suc.prems(2) by (simp add: frontier_inv_def frontier_ok_def)
  from Suc.IH[OF s1(2) n(4)] n(1-3) fin show ?case by auto
qed

section \<open>Counters and flags during a search\<close>

lemma loop_state_counts:
  assumes "loop_state k slv p timeout_secs clock (search_init slv p) = Some st"
  shows "nodes_expanded (self_metrics st) = nodes_expanded (metrics slv) + card (explored st) \<and>
         card (explored st) + length (frontier st) \<le> nodes_generated (self_metrics st) \<and>
         length (branching_factors st) = card (explored st) \<and>
         success (self_metrics st) = success (metrics slv) \<and>
         timeout (self_metrics st) = timeout (metrics slv) \<and>
         avg_branching_factor (self_metrics st) = avg_branching_factor (metrics slv) \<and>
         solution_length (self_metrics st) = solution_length (metrics slv) \<and>
         frontier_inv (state_key p) st"
proof -
  let ?I = "\<lambda>st. nodes_expanded (self_metrics st) = nodes_expanded (metrics slv) + card (explored st) \<and>
         card (explored st) + length (frontier st) \<le> nodes_generated (self_metrics st) \<and>
         length (branching_factors st) = card (explored st) \<and>
         success (self_metrics st) = success (metrics slv) \<and>
         timeout (self_metrics st) = timeout (metrics slv) \<and>
         avg_branching_factor (self_metrics st) = avg_branching_factor (metrics slv) \<and>
         solution_length (self_metrics st) = solution_length (metrics slv)"
  have init: "?I (search_init slv p)"
    by (simp add: search_init_def Let_def heappush_Nil)
  have step: "?I s'" if I: "?I s" and inv: "frontier_inv (state_key p) s" and ne: "frontier s \<noteq> []"
    and it: "iteration slv p timeout_secs clock s = Next s'" for s s'
  proof -
    from iteration_Next[OF inv ne it] obtain f node and acts :: "string list" and b c where n:
      "state_key p (state node) \<notin> explored s"
      "explored s' = insert (state_key p (state node)) (explored s)"
      "branching_factors s' = branching_factors s @ [length acts]"
      "self_metrics s' = (self_metrics s)
             \<lparr>nodes_expanded := nodes_expanded (self_metrics s) + 1,
              nodes_generated := nodes_generated (self_metrics s) + length acts,
              max_frontier_size := b, max_memory_nodes := c\<rparr>"
      "Suc (length (frontier s')) \<le> length (frontier s) + length acts"
      by blast
    have fin: "finite (explored s)"
      using inv by (simp add: frontier_inv_def frontier_ok_def)
    have c: "card (explored s') = Suc (card (explored s))"
      using n(1,2) fin by simp
    show ?thesis
      using I n(3,4,5) c by simp
  qed
  from loop_state_rule[where I="?I", OF assms init frontier_inv_search_init step]
  show ?thesis by simp
qed

text \<open>
  Every return of \<open>solve\<close> is one of three: the frontier is empty, the time limit is
  passed, or the popped node is a goal.
\<close>

lemma run_search_outcome:
  assumes "run_search fuel slv p timeout_secs clock = Some (Inr ((path, acts, m), stf))"
  shows "\<exists>k st. loop_state k slv p timeout_secs clock (search_init slv p) = Some st \<and>
           explored stf = explored st \<and> branching_factors stf = branching_factors st \<and>
           self_metrics stf = m \<and>
           ((frontier st = [] \<and> path = None \<and> acts = None \<and>
             m = (self_metrics st)\<lparr>total_time := clock (ticks st) - clock 0\<rparr>) \<or>
            (frontier st \<noteq> [] \<and> clock (ticks st) - clock 0 > timeout_secs \<and>
             path = None \<and> acts = None \<and>
             m = (self_metrics st)
                   \<lparr>timeout := True, total_time := clock (Suc (ticks st)) - clock 0\<rparr>) \<or>
            (frontier st \<noteq> [] \<and> \<not> clock (ticks st) - clock 0 > timeout_secs \<and>
             (\<exists>f node c. (f, node) \<in> set (frontier st) \<and> goal_test p (state node) \<and>
                path = Some (fst (extract_solution node)) \<and>
                acts = Some (snd (extract_solution node)) \<and>
                m = (let m1 = (self_metrics st)
                          \<lparr>max_memory_nodes := c,
                           nodes_expanded := nodes_expanded (self_metrics st) + 1,
                           success := True,
                           total_time := clock (Suc (ticks st)) - clock 0,
                           solution_length := length (snd (extract_solution node))\<rparr>
                     in if branching_factors st \<noteq> []
                        then m1\<lparr>avg_branching_factor :=
                                 real (sum_list (branching_factors st))
                                 / real (length (branching_factors st))\<rparr>
                        else m1) \<and>
                length (frontier st) = Suc (length (frontier stf)))))"
proof -
  let ?res = "Inr ((path, acts, m), stf) :: error + 'a outcome \<times> ('a, 'b) search"
  from assms have "search_loop fuel slv p timeout_secs clock (search_init slv p) = Some ?res"
    by (simp add: run_search_def)
  from search_loop_last[OF this] obtain k st where l:
    "loop_state k slv p timeout_secs clock (search_init slv p) = Some st"
    "if frontier st = []
     then ?res = Inr ((None, None, (self_metrics st)\<lparr>total_time := clock (ticks st) - clock 0\<rparr>),
                      st\<lparr>self_metrics := (self_metrics st)\<lparr>total_time := clock (ticks st) - clock 0\<rparr>,
                         ticks := Suc (ticks st)\<rparr>)
     else (\<exists>r. iteration slv p timeout_secs clock st = Return r \<and> ?res = Inr r) \<or>
          (\<exists>e. iteration slv p timeout_secs clock st = Raise e \<and> ?res = Inl e)"
    by blast
  have inv: "frontier_inv (state_key p) st"
    using loop_state_frontier_inv[OF l(1) frontier_inv_search_init] .
  show ?thesis
  proof (cases "frontier st = []")
    case True
    with l show ?thesis
      by (intro exI[of _ k] exI[of _ st]) auto
  next
    case ne: False
    with l(2) have it: "iteration slv p timeout_secs clock st = Return ((path, acts, m), stf)"
      by auto
    from iteration_Return[OF inv ne it] ne l(1) show ?thesis
      by (intro exI[of _ k] exI[of _ st]) (elim disjE; simp; blast)
  qed
qed


lemma frontier_inv_search_x: "frontier_inv (\<lambda>s. s) search_x"
  by (simp add: frontier_inv_def frontier_ok_def search_x_def entry_key_def)

lemma iteration_empty_frontier:
  "frontier st = [] \<Longrightarrow> iteration slv p timeout_secs clock st \<noteq> Next st'"
  by (simp add: iteration_def Let_def heappop_def)

lemma test_loop_state1:
  "loop_state (Suc 0) (AStarSolver_init simple_heuristic) TestProblem 30 (\<lambda>n. 0)
     (search_init (AStarSolver_init simple_heuristic) TestProblem) =
   Some \<lparr>frontier = [(1, Node ''goal'' (Some (Node ''start'' None None 0)) (Some ''move'') 1)],
         frontier_states = [''goal'' \<mapsto> (1, 1)],
         explored = {''start''},
         branching_factors = [1],
         self_metrics = \<lparr>nodes_expanded = 1, nodes_generated = 2, max_frontier_size = 1,
           max_memory_nodes = 1, total_time = 0, solution_length = 0,
           success = False, timeout = False, avg_branching_factor = 0\<rparr>,
         ticks = 2\<rparr>"
  by (simp add: search_init_def Let_def Node_init_def heappush_Nil
       AStarSolver_init_def AStarMetrics_init_def TestProblem_def simple_heuristic_def solver_f_def
       iteration_def heappop_def consider_child_def one_enat_def zero_enat_def fun_eq_iff)

lemma test_run_search:
  "\<exists>st. run_search (Suc (Suc (Suc 0))) test_solver TestProblem 30 still_clock =
     Some (Inr ((Some [''start'', ''goal''], Some [''move''],
        \<lparr>nodes_expanded = 2, nodes_generated = 2, max_frontier_size = 1,
           max_memory_nodes = 2, total_time = 0, solution_length = 1,
           success = True, timeout = False, avg_branching_factor = 1\<rparr>), st)) \<and>
     explored st = {''start''} \<and> branching_factors st = [1]"
  by (simp add: run_search_def search_init_def Let_def Node_init_def heappush_Nil test_solver_def
       AStarSolver_init_def AStarMetrics_init_def TestProblem_def simple_heuristic_def solver_f_def
       iteration_def heappop_def consider_child_def extract_solution_def one_enat_def zero_enat_def
       still_clock_def)

lemma test_solve1:
  "solve (Suc (Suc (Suc 0))) test_solver TestProblem 30 still_clock = Some (Inr test_result1)"
  by (simp add: solve_def run_search_def search_init_def Let_def Node_init_def heappush_Nil test_solver_def
       AStarSolver_init_def AStarMetrics_init_def TestProblem_def simple_heuristic_def solver_f_def
       iteration_def heappop_def consider_child_def extract_solution_def one_enat_def zero_enat_def
       still_clock_def test_result1_def)


section \<open>Nodes and the path they stand for\<close>

lemma replay_nonempty:
  "replay p s as = Inr path \<Longrightarrow> path \<noteq> [] \<and> hd path = s \<and> length path = Suc (length as)"
proof (induction as arbitrary: s path)
  case Nil
  then show ?case by auto
next
  case (Cons a as)
  then show ?case by (auto split: sum.splits)
qed

lemma replay_snoc:
  assumes "replay p s as = Inr path" and "result p (last path) a = Inr (s', c)"
  shows "replay p s (as @ [a]) = Inr (path @ [s'])"
  using assms
proof (induction as arbitrary: s path)
  case Nil
  then show ?case by auto
next
  case (Cons b bs)
  from Cons.prems(1) obtain s1 c1 path1 where b:
    "result p s b = Inr (s1, c1)" "replay p s1 bs = Inr path1" "path = s # path1"
    by (auto split: sum.splits)
  from replay_nonempty[OF b(2)] have "path1 \<noteq> []" by simp
  with Cons.prems(2) b(3) have "result p (last path1) a = Inr (s', c)" by simp
  from Cons.IH[OF b(2) this] b show ?case by simp
qed

lemma node_ok_walk:
  assumes "node_ok p n"
  shows "replay p (get_initial_state p) (rev (snd (walk_parents n))) = Inr (rev (fst (walk_parents n)))
         \<and> hd (fst (walk_parents n)) = state n \<and> fst (walk_parents n) \<noteq> []"
  using assms
proof (induction p n rule: node_ok.induct)
  case (1 p s act c)
  then show ?case by simp
next
  case (2 p s par act c)
  from "2.prems" obtain a cost where a: "node_ok p par" "act = Some a" "a \<noteq> []"
    "result p (state par) a = Inr (s, cost)"
    by (auto split: option.splits sum.splits)
  obtain ppath pacts where w: "walk_parents par = (ppath, pacts)"
    by (cases "walk_parents par")
  from "2.IH"[OF a(1)] w have ih: "replay p (get_initial_state p) (rev pacts) = Inr (rev ppath)"
    "hd ppath = state par" "ppath \<noteq> []" by simp_all
  have "last (rev ppath) = state par" using ih(2,3) by (simp add: last_rev)
  with a(4) have "result p (last (rev ppath)) a = Inr (s, cost)" by simp
  from replay_snoc[OF ih(1) this] a(2,3) w show ?case by simp
qed

lemma node_ok_extract:
  assumes "node_ok p n" and "extract_solution n = (path, acts)"
  shows "replay p (get_initial_state p) acts = Inr path \<and> last path = state n"
proof -
  from node_ok_walk[OF assms(1)] assms(2) show ?thesis
    by (auto simp: extract_solution_def last_rev split: prod.splits)
qed

text \<open>
  When \<open>actions\<close> returns non-empty strings only, every node of the frontier leads back
  to the initial state.
\<close>

lemma loop_state_node_ok:
  assumes "loop_state k slv p timeout_secs clock (search_init slv p) = Some st"
    and names: "\<forall>s acts. actions p s = Inr acts \<longrightarrow> [] \<notin> set acts"
  shows "\<forall>e \<in> set (frontier st). node_ok p (snd e)"
proof -
  let ?I = "\<lambda>st :: ('a, 'b) search. \<forall>e \<in> set (frontier st). node_ok p (snd e)"
  have init: "?I (search_init slv p)"
    by (simp add: frontier_search_init)
  have step: "?I s'" if I: "?I s" and inv: "frontier_inv (state_key p) s" and ne: "frontier s \<noteq> []"
    and it: "iteration slv p timeout_secs clock s = Next s'" for s s'
  proof -
    from iteration_Next[OF inv ne it] obtain f node and acts :: "string list" where n:
      "(f, node) \<in> set (frontier s)"
      "actions p (state node) = Inr acts"
      "\<forall>e \<in> set (frontier s').
          e \<in> set (frontier s) \<or>
          (\<exists>a \<in> set acts. \<exists>cs c. result p (state node) a = Inr (cs, c) \<and>
              snd e = Node_init cs (Some node) (Some a) c)"
      by blast
    have ok: "node_ok p node" using I n(1) by auto
    show ?thesis
    proof
      fix e assume e: "e \<in> set (frontier s')"
      with n(3) consider "e \<in> set (frontier s)"
        | a cs c where "a \<in> set acts" "result p (state node) a = Inr (cs, c)"
            "snd e = Node_init cs (Some node) (Some a) c"
        by blast
      then show "node_ok p (snd e)"
      proof cases
        case 1
        with I show ?thesis by auto
      next
        case 2
        from names n(2) 2(1) have "a \<noteq> []" by auto
        with 2 ok show ?thesis by (simp add: Node_init_def)
      qed
    qed
  qed
  from loop_state_rule[where I="?I", OF assms(1) init frontier_inv_search_init step]
  show ?thesis by simp
qed

lemma run_search_success_replay:
  assumes "run_search fuel slv p timeout_secs clock = Some (Inr ((Some path, Some acts, m), stf))"
    and names: "\<forall>s acts. actions p s = Inr acts \<longrightarrow> [] \<notin> set acts"
  shows "replay p (get_initial_state p) acts = Inr path \<and> goal_test p (last path)"
proof -
  from run_search_outcome[OF assms(1)] obtain k st f node where o:
    "loop_state k slv p timeout_secs clock (search_init slv p) = Some st"
    "(f, node) \<in> set (frontier st)" "goal_test p (state node)"
    "path = fst (extract_solution node)" "acts = snd (extract_solution node)"
    by auto
  from loop_state_node_ok[OF o(1) names] o(2) have "node_ok p node" by auto
  from node_ok_extract[OF this, of path acts] o(3,4,5) show ?thesis by simp
qed

section \<open>Facts about the puzzle\<close>

lemma dir_map_simps:
  "dir_map ''UP'' = Some (-1, 0)" "dir_map ''DOWN'' = Some (1, 0)"
  "dir_map ''LEFT'' = Some (0, -1)" "dir_map ''RIGHT'' = Some (0, 1)"
  by (simp_all add: dir_map_def)

lemma sokoban_actions_legal:
  assumes "sokoban_actions s = Inr acts" "a \<in> set acts"
  shows "\<exists>pr pc dr dc. player s = Some (pr, pc) \<and> dir_map a = Some (dr, dc) \<and> a \<noteq> [] \<and>
           (pr + dr, pc + dc) \<notin> walls s \<and>
           ((pr + dr, pc + dc) \<in> boxes s \<longrightarrow>
              (pr + dr + dr, pc + dc + dc) \<notin> walls s \<and> (pr + dr + dr, pc + dc + dc) \<notin> boxes s)"
proof -
  from assms(1) obtain pr pc where pl: "player s = Some (pr, pc)"
    by (cases "player s") (auto simp: sokoban_actions_def)
  let ?legal = "\<lambda>(dr, dc, a :: string).
      (pr + dr, pc + dc) \<notin> walls s \<and>
      \<not> ((pr + dr, pc + dc) \<in> boxes s \<and>
         ((pr + dr + dr, pc + dc + dc) \<in> walls s \<or> (pr + dr + dr, pc + dc + dc) \<in> boxes s))"
  have "acts = map (\<lambda>(dr, dc, a). a) (filter ?legal directions)"
    using assms(1) pl by (simp add: sokoban_actions_def Let_def)
  with assms(2) obtain dr dc where d: "(dr, dc, a) \<in> set directions" "?legal (dr, dc, a)"
    by auto
  from d(1) have "dir_map a = Some (dr, dc) \<and> a \<noteq> []"
    by (auto simp: directions_def dir_map_simps)
  with d(2) pl show ?thesis by auto
qed

lemma level1_actions: "sokoban_actions level1_state = Inr [''RIGHT'']"
  by (simp add: sokoban_actions_def level1_state_def level1_walls_def directions_def Let_def)

lemma level1_result:
  "sokoban_result level1_state ''RIGHT'' =
     Inr (\<lparr>boxes = {(1, 3)}, player = Some (1, 2), walls = level1_walls, goals = {(1, 3)}\<rparr>, 1)"
  by (simp add: sokoban_result_def dir_map_simps level1_state_def Let_def)

lemma parse_no_player: "parse_level LEVEL_no_player = ({(0, 0), (0, 1), (0, 2)}, {}, None, {})"
  by (simp add: parse_level_def LEVEL_no_player_def strip_def rstrip_def isspace_def
      enumerate_def parse_char_def upt_rec insert_commute)

lemma parse_level1: "parse_level LEVEL_1 = (level1_walls, {(1, 2)}, Some (1, 1), {(1, 3)})"
  by (simp add: parse_level_def LEVEL_1_def strip_def rstrip_def isspace_def
      enumerate_def parse_char_def upt_rec level1_walls_def insert_commute)

lemma level1_problem_parsed: "SokobanProblem_init LEVEL_1 = Inr level1_problem"
  by (simp add: SokobanProblem_init_def parse_level1 level1_problem_def level1_state_def)

lemma parse_no_goal: "parse_level LEVEL_no_goal = (level1_walls, {(1, 2)}, Some (1, 1), {})"
  by (simp add: parse_level_def LEVEL_no_goal_def strip_def rstrip_def isspace_def
      enumerate_def parse_char_def upt_rec level1_walls_def insert_commute)

lemma no_goal_problem_parsed: "SokobanProblem_init LEVEL_no_goal = Inr no_goal_problem"
  by (simp add: SokobanProblem_init_def parse_no_goal no_goal_problem_def no_goal_state_def)


lemma solve_Inr:
  "solve fuel slv p timeout_secs clock = Some (Inr r) \<longleftrightarrow>
     (\<exists>st. run_search fuel slv p timeout_secs clock = Some (Inr (r, st)))"
proof (cases "run_search fuel slv p timeout_secs clock")
  case None
  then show ?thesis by (simp add: solve_def)
next
  case (Some x)
  then show ?thesis by (cases x) (auto simp: solve_def)
qed

lemma sokoban_actions_nonempty:
  "\<forall>s acts. actions (sokoban_problem sp) s = Inr acts \<longrightarrow> [] \<notin> set acts"
proof (intro allI impI)
  fix s acts
  assume "actions (sokoban_problem sp) s = Inr acts"
  then have a: "sokoban_actions s = Inr acts" by (simp add: sokoban_problem_def)
  show "[] \<notin> set acts"
  proof
    assume "[] \<in> set acts"
    from sokoban_actions_legal[OF a this] show False by blast
  qed
qed

lemma level1_state_fields:
  "boxes level1_state = {(1, 2)}" "player level1_state = Some (1, 1)"
  "walls level1_state = level1_walls" "goals level1_state = {(1, 3)}"
  by (simp_all add: level1_state_def)

lemma level1_solve:
  "solve (Suc (Suc (Suc 0))) level1_solver (sokoban_problem level1_problem) 30 still_clock =
     Some (Inr (Some [level1_state,
                      \<lparr>boxes = {(1, 3)}, player = Some (1, 2), walls = level1_walls, goals = {(1, 3)}\<rparr>],
                Some [''RIGHT''],
                \<lparr>nodes_expanded = 2, nodes_generated = 2, max_frontier_size = 1,
                 max_memory_nodes = 2, total_time = 0, solution_length = 1,
                 success = True, timeout = False, avg_branching_factor = 1\<rparr>))"
  by (simp add: solve_def run_search_def search_init_def Let_def Node_init_def heappush_Nil
       level1_solver_def level1_problem_def sokoban_problem_def
       AStarSolver_init_def AStarMetrics_init_def solver_f_def
       iteration_def heappop_def consider_child_def extract_solution_def one_enat_def zero_enat_def
       still_clock_def level1_actions level1_result is_goal_def SokobanState_key_def
       manhattan_heuristic_def min_dist_loop_def manhattan_distance_def level1_iter_def
       level1_state_fields)


section \<open>The heuristics\<close>

lemma manhattan_distance_zero: "manhattan_distance a b = 0 \<longleftrightarrow> a = b"
  by (cases a; cases b) (auto simp: manhattan_distance_def)

lemma min_dist_fold_zero:
  "fold (\<lambda>goal min_dist.
           if enat (manhattan_distance box goal) < min_dist
           then enat (manhattan_distance box goal) else min_dist) gs acc = 0
   \<longleftrightarrow> acc = 0 \<or> box \<in> set gs"
proof (induction gs arbitrary: acc)
  case Nil
  then show ?case by simp
next
  case (Cons goal gs)
  let ?d = "manhattan_distance box goal"
  let ?new = "if enat ?d < acc then enat ?d else acc"
  have "?new = 0 \<longleftrightarrow> acc = 0 \<or> box = goal"
  proof (cases "enat ?d < acc")
    case True
    then have "acc \<noteq> 0" by auto
    with True show ?thesis
      by (simp add: zero_enat_def manhattan_distance_zero)
  next
    case False
    have "acc = 0" if "box = goal"
    proof -
      from that have "?d = 0" by (simp add: manhattan_distance_zero)
      with False show ?thesis by (simp add: zero_enat_def[symmetric])
    qed
    with False show ?thesis by auto
  qed
  then show ?case
    using Cons.IH[of ?new] by auto
qed

lemma min_dist_loop_zero: "min_dist_loop box gs = 0 \<longleftrightarrow> box \<in> set gs"
  by (simp add: min_dist_loop_def min_dist_fold_zero)

lemma fold_sum_zero:
  "fold (\<lambda>box total. total + h box) bs (t :: enat) = 0 \<longleftrightarrow> t = 0 \<and> (\<forall>b \<in> set bs. h b = 0)"
  by (induction bs arbitrary: t) auto

lemma manhattan_heuristic_zero:
  assumes "lists_set (iter (boxes s)) (boxes s)" "lists_set (iter gls) gls"
  shows "manhattan_heuristic iter s gls = 0 \<longleftrightarrow> boxes s \<subseteq> gls"
  using assms
  by (auto simp: manhattan_heuristic_def fold_sum_zero min_dist_loop_zero lists_set_def)

lemma simple_count_heuristic_zero:
  assumes "lists_set (iter (boxes s)) (boxes s)"
  shows "simple_count_heuristic iter s gls = 0 \<longleftrightarrow> boxes s \<subseteq> gls"
  using assms
  by (auto simp: simple_count_heuristic_def lists_set_def filter_empty_conv)

text \<open>The step of the inner loop of the greedy matching.\<close>

lemma best_goal_loop_Cons:
  "fold (\<lambda>goal (best_dist, best_goal).
             if goal \<in> used then (best_dist, best_goal)
             else if enat (manhattan_distance box goal) < best_dist
                  then (enat (manhattan_distance box goal), Some goal)
                  else (best_dist, best_goal)) (goal # gl) (bd, bg) =
   fold (\<lambda>goal (best_dist, best_goal).
             if goal \<in> used then (best_dist, best_goal)
             else if enat (manhattan_distance box goal) < best_dist
                  then (enat (manhattan_distance box goal), Some goal)
                  else (best_dist, best_goal)) gl
     (if goal \<in> used then (bd, bg)
      else if enat (manhattan_distance box goal) < bd
           then (enat (manhattan_distance box goal), Some goal) else (bd, bg))"
  by simp

lemma best_goal_fold_found:
  "fold (\<lambda>goal (best_dist, best_goal).
             if goal \<in> used then (best_dist, best_goal)
             else if enat (manhattan_distance box goal) < best_dist
                  then (enat (manhattan_distance box goal), Some goal)
                  else (best_dist, best_goal)) gl (0, Some box) = (0, Some box)"
  by (induction gl) auto

lemma best_goal_fold_own_cell:
  assumes "box \<in> set gl" "box \<notin> used" "bd \<noteq> 0"
  shows "fold (\<lambda>goal (best_dist, best_goal).
             if goal \<in> used then (best_dist, best_goal)
             else if enat (manhattan_distance box goal) < best_dist
                  then (enat (manhattan_distance box goal), Some goal)
                  else (best_dist, best_goal)) gl (bd, bg) = (0, Some box)"
  using assms
proof (induction gl arbitrary: bd bg)
  case Nil
  then show ?case by simp
next
  case (Cons goal gl)
  show ?case
  proof (cases "goal = box")
    case True
    have "enat (manhattan_distance box box) = 0"
      by (simp add: manhattan_distance_zero zero_enat_def)
    moreover have "0 < bd" using Cons.prems(3) by (simp add: zero_less_iff_neq_zero)
    ultimately show ?thesis
      using True Cons.prems(2) by (simp add: best_goal_fold_found)
  next
    case False
    then have d: "enat (manhattan_distance box goal) \<noteq> 0"
      by (simp add: zero_enat_def manhattan_distance_zero)
    from False Cons.prems(1) have in_gl: "box \<in> set gl" by auto
    show ?thesis
      unfolding best_goal_loop_Cons
      using Cons.IH[OF in_gl Cons.prems(2)] d Cons.prems(3) by auto
  qed
qed

lemma best_goal_loop_own_cell:
  assumes "box \<in> set gl" "box \<notin> used"
  shows "best_goal_loop box gl used = (0, Some box)"
  unfolding best_goal_loop_def
  using best_goal_fold_own_cell[OF assms, of \<infinity> None] by simp

text \<open>What the inner loop holds at any moment: nothing yet, or an unused goal and its distance.\<close>

lemma best_goal_fold_inv:
  assumes "(bg = None \<and> bd = \<infinity>) \<or>
           (\<exists>g0. bg = Some g0 \<and> g0 \<in> G \<and> g0 \<notin> used \<and> bd = enat (manhattan_distance box g0))"
    and "set gl \<subseteq> G"
    and "fold (\<lambda>goal (best_dist, best_goal).
             if goal \<in> used then (best_dist, best_goal)
             else if enat (manhattan_distance box goal) < best_dist
                  then (enat (manhattan_distance box goal), Some goal)
                  else (best_dist, best_goal)) gl (bd, bg) = (bd', bg')"
  shows "((bg' = None \<and> bd' = \<infinity>) \<or>
           (\<exists>g0. bg' = Some g0 \<and> g0 \<in> G \<and> g0 \<notin> used \<and> bd' = enat (manhattan_distance box g0))) \<and>
         (bg' = None \<longrightarrow> set gl \<subseteq> used)"
  using assms
proof (induction gl arbitrary: bd bg)
  case Nil
  then show ?case by auto
next
  case (Cons goal gl)
  let ?acc = "if goal \<in> used then (bd, bg)
      else if enat (manhattan_distance box goal) < bd
           then (enat (manhattan_distance box goal), Some goal) else (bd, bg)"
  obtain bd1 bg1 where acc: "?acc = (bd1, bg1)" by (cases ?acc)
  have inv1: "(bg1 = None \<and> bd1 = \<infinity>) \<or>
           (\<exists>g0. bg1 = Some g0 \<and> g0 \<in> G \<and> g0 \<notin> used \<and> bd1 = enat (manhattan_distance box g0))"
  proof (cases "goal \<notin> used \<and> enat (manhattan_distance box goal) < bd")
    case True
    with acc have "bd1 = enat (manhattan_distance box goal)" "bg1 = Some goal" by simp_all
    moreover have "goal \<in> G" using Cons.prems(2) by simp
    ultimately show ?thesis using True by blast
  next
    case False
    with acc have "bd1 = bd" "bg1 = bg" by (auto split: if_splits)
    with Cons.prems(1) show ?thesis by simp
  qed
  have none1: "bg1 = None \<longrightarrow> goal \<in> used"
    using Cons.prems(1) acc by (auto split: if_splits)
  from Cons.prems(3) acc have f: "fold (\<lambda>goal (best_dist, best_goal).
             if goal \<in> used then (best_dist, best_goal)
             else if enat (manhattan_distance box goal) < best_dist
                  then (enat (manhattan_distance box goal), Some goal)
                  else (best_dist, best_goal)) gl (bd1, bg1) = (bd', bg')"
    unfolding best_goal_loop_Cons by simp
  have sub: "set gl \<subseteq> G" using Cons.prems(2) by auto
  from Cons.IH[OF inv1 sub f] have ih:
    "(bg' = None \<and> bd' = \<infinity>) \<or>
       (\<exists>g0. bg' = Some g0 \<and> g0 \<in> G \<and> g0 \<notin> used \<and> bd' = enat (manhattan_distance box g0))"
    "bg' = None \<longrightarrow> set gl \<subseteq> used" by blast+
  have keep: "bg' = None \<longrightarrow> bg1 = None"
  proof
    assume n: "bg' = None"
    show "bg1 = None"
    proof (rule ccontr)
      assume "bg1 \<noteq> None"
      then obtain g1 where g1: "bg1 = Some g1" by auto
      have "\<And>a b. b \<noteq> None \<Longrightarrow> snd (fold (\<lambda>goal (best_dist, best_goal).
             if goal \<in> used then (best_dist, best_goal)
             else if enat (manhattan_distance box goal) < best_dist
                  then (enat (manhattan_distance box goal), Some goal)
                  else (best_dist, best_goal)) gl (a, b)) \<noteq> None"
        by (induction gl) auto
      from this[of bg1 bd1] g1 f n show False by simp
    qed
  qed
  from ih keep none1 show ?case by auto
qed

lemma best_goal_loop_result:
  assumes "best_goal_loop box gl used = (bd, bg)"
  shows "(bg = None \<and> set gl \<subseteq> used) \<or>
         (\<exists>g0. bg = Some g0 \<and> g0 \<in> set gl \<and> g0 \<notin> used \<and> bd = enat (manhattan_distance box g0))"
  using best_goal_fold_inv[where G="set gl" and gl=gl and bd=\<infinity> and bg=None and used=used and box=box
      and bd'=bd and bg'=bg] assms
  by (auto simp: best_goal_loop_def)

lemma matching_loop_Cons:
  "matching_loop (box # bxs) gl (t, used) =
     matching_loop bxs gl
       (case best_goal_loop box gl used of
          (best_dist, Some best_goal) \<Rightarrow> (t + best_dist, insert best_goal used)
        | (best_dist, None) \<Rightarrow> (t, used))"
  by (simp add: matching_loop_def)

lemma matching_loop_Nil: "matching_loop [] gl acc = acc"
  by (simp add: matching_loop_def)

text \<open>Boxes that stand on goals claim their own cells and add nothing.\<close>

lemma matching_loop_on_goals:
  assumes "distinct bxs" "set bxs \<subseteq> set gl" "set bxs \<inter> used = {}"
  shows "matching_loop bxs gl (t, used) = (t, used \<union> set bxs)"
  using assms
proof (induction bxs arbitrary: used)
  case Nil
  then show ?case by (simp add: matching_loop_Nil)
next
  case (Cons box bxs)
  have own: "best_goal_loop box gl used = (0, Some box)"
    using Cons.prems(2,3) by (intro best_goal_loop_own_cell) auto
  have "matching_loop bxs gl (t, insert box used) = (t, insert box used \<union> set bxs)"
    using Cons.prems by (intro Cons.IH) auto
  then show ?case
    by (simp add: matching_loop_Cons own)
qed

text \<open>
  With a goal left for every box still to come, a total of 0 means every box was on a
  goal.
\<close>

lemma matching_loop_zero:
  assumes "used \<subseteq> set gl" "card used + length bxs \<le> card (set gl)"
    and "matching_loop bxs gl (t, used) = (0, used')"
  shows "t = 0 \<and> set bxs \<subseteq> set gl"
  using assms
proof (induction bxs arbitrary: t used)
  case Nil
  then show ?case by (simp add: matching_loop_Nil)
next
  case (Cons box bxs)
  obtain bd bg where b: "best_goal_loop box gl used = (bd, bg)"
    by (cases "best_goal_loop box gl used")
  have fin: "finite used" using Cons.prems(1) by (rule finite_subset) simp
  have "card used < card (set gl)" using Cons.prems(2) by simp
  then have "\<not> set gl \<subseteq> used"
    using fin by (meson card_mono not_less)
  with best_goal_loop_result[OF b] obtain g0 where g0:
    "bg = Some g0" "g0 \<in> set gl" "g0 \<notin> used" "bd = enat (manhattan_distance box g0)"
    by blast
  have step: "matching_loop bxs gl (t + bd, insert g0 used) = (0, used')"
    using Cons.prems(3) b g0(1) by (simp add: matching_loop_Cons)
  have "insert g0 used \<subseteq> set gl" using Cons.prems(1) g0(2) by simp
  moreover have "card (insert g0 used) + length bxs \<le> card (set gl)"
    using Cons.prems(2) g0(3) fin by simp
  ultimately have ih: "t + bd = 0" "set bxs \<subseteq> set gl"
    using Cons.IH[OF _ _ step] by simp_all
  from ih(1) have "t = 0" "bd = 0" by simp_all
  with g0(4) have "box = g0"
    by (simp add: zero_enat_def manhattan_distance_zero)
  with g0(2) ih(2) \<open>t = 0\<close> show ?case by simp
qed

lemma minimum_matching_heuristic_on_goals:
  assumes "lists_set (iter (boxes s)) (boxes s)" "lists_set (iter gls) gls" "boxes s \<subseteq> gls"
  shows "minimum_matching_heuristic iter s gls = 0"
proof -
  have "matching_loop (iter (boxes s)) (iter gls) (0, {}) = (0, {} \<union> set (iter (boxes s)))"
    using assms by (intro matching_loop_on_goals) (auto simp: lists_set_def)
  then show ?thesis
    by (simp add: minimum_matching_heuristic_def Let_def)
qed

lemma minimum_matching_heuristic_zero:
  assumes "lists_set (iter (boxes s)) (boxes s)" "lists_set (iter gls) gls"
    and "card (boxes s) \<le> card gls" and "minimum_matching_heuristic iter s gls = 0"
  shows "boxes s \<subseteq> gls"
proof (cases "iter (boxes s) = []")
  case True
  with assms(1) show ?thesis by (auto simp: lists_set_def)
next
  case False
  obtain t u where m: "matching_loop (iter (boxes s)) (iter gls) (0, {}) = (t, u)"
    by (cases "matching_loop (iter (boxes s)) (iter gls) (0, {})")
  with assms(4) False have t: "t = 0"
    by (simp add: minimum_matching_heuristic_def Let_def)
  have "length (iter (boxes s)) = card (boxes s)"
    using assms(1) distinct_card[of "iter (boxes s)"] by (simp add: lists_set_def)
  moreover have "set (iter gls) = gls" using assms(2) by (simp add: lists_set_def)
  ultimately have "card {} + length (iter (boxes s)) \<le> card (set (iter gls))"
    using assms(3) by simp
  from matching_loop_zero[OF _ this m[unfolded t]] assms(1,2) show ?thesis
    by (simp add: lists_set_def)
qed

lemma level1_iter_lists:
  "lists_set (level1_iter {(1, 2)}) {(1, 2)}" "lists_set (level1_iter {(1, 3)}) {(1, 3)}"
  "lists_set (level1_iter {}) {}"
  by (simp_all add: lists_set_def level1_iter_def)

section \<open>The claims\<close>


text \<open>
  C1.  Whenever \<open>solve\<close> on a puzzle problem returns a path and actions, with any
  heuristic, time limit and clock: applying the actions in order with \<open>result\<close> from
  the initial state raises nothing and passes exactly the states of the path, which
  starts at the initial state and has one state more than there are actions; its last
  state passes the goal test, that is, its boxes are its goals.
\<close>

theorem solution_reaches_goal:
  assumes "solve fuel slv (sokoban_problem sp) timeout_secs clock = Some (Inr (Some path, Some acts, m))"
  shows "replay (sokoban_problem sp) (initial_state sp) acts = Inr path \<and>
         hd path = initial_state sp \<and>
         length path = Suc (length acts) \<and>
         is_goal (last path) \<and> boxes (last path) = goals (last path)"
proof -
  from assms obtain stf where r:
    "run_search fuel slv (sokoban_problem sp) timeout_secs clock
       = Some (Inr ((Some path, Some acts, m), stf))"
    by (auto simp: solve_Inr)
  from run_search_success_replay[OF r sokoban_actions_nonempty]
  have *: "replay (sokoban_problem sp) (initial_state sp) acts = Inr path" "is_goal (last path)"
    by (simp_all add: sokoban_problem_def)
  from replay_nonempty[OF *(1)] * show ?thesis
    by (simp add: is_goal_def)
qed

theorem solution_reaches_goal_witness:
  "solve (Suc (Suc (Suc 0))) level1_solver (sokoban_problem level1_problem) 30 still_clock =
     Some (Inr (Some [level1_state,
                      \<lparr>boxes = {(1, 3)}, player = Some (1, 2), walls = level1_walls, goals = {(1, 3)}\<rparr>],
                Some [''RIGHT''],
                \<lparr>nodes_expanded = 2, nodes_generated = 2, max_frontier_size = 1,
                 max_memory_nodes = 2, total_time = 0, solution_length = 1,
                 success = True, timeout = False, avg_branching_factor = 1\<rparr>)) \<and>
   replay (sokoban_problem level1_problem) (initial_state level1_problem) [''RIGHT''] =
     Inr [level1_state,
          \<lparr>boxes = {(1, 3)}, player = Some (1, 2), walls = level1_walls, goals = {(1, 3)}\<rparr>] \<and>
   is_goal \<lparr>boxes = {(1, 3)}, player = Some (1, 2), walls = level1_walls, goals = {(1, 3)}\<rparr>"
proof -
  note t = solution_reaches_goal[OF level1_solve]
  from t have "is_goal \<lparr>boxes = {(1, 3)}, player = Some (1, 2), walls = level1_walls, goals = {(1, 3)}\<rparr>"
    by simp
  with t level1_solve show ?thesis by blast
qed


text \<open>
  C2, as the code has it.  For a \<open>solve\<close> that returns, on a solver fresh from
  \<open>__init__\<close>: \<open>nodes_expanded\<close> is at most \<open>nodes_generated\<close>; it is the number of
  states in the explored set when the search fails (frontier exhausted or time limit),
  and one more when it succeeds, because the goal node is counted when it is popped and
  returned before its state would enter the explored set.  \<open>st\<close> is the search state
  at the return.
\<close>

theorem fresh_solver_counts:
  assumes "run_search fuel (AStarSolver_init h) p timeout_secs clock = Some (Inr ((path, acts, m), st))"
  shows "nodes_expanded m \<le> nodes_generated m \<and>
         finite (explored st) \<and>
         nodes_expanded m = card (explored st) + (if success m then 1 else 0) \<and>
         (success m \<longleftrightarrow> path \<noteq> None)"
proof -
  let ?slv = "AStarSolver_init h"
  from run_search_outcome[OF assms] obtain k s where o:
    "loop_state k ?slv p timeout_secs clock (search_init ?slv p) = Some s"
    "explored st = explored s"
    "(frontier s = [] \<and> path = None \<and> acts = None \<and>
       m = (self_metrics s)\<lparr>total_time := clock (ticks s) - clock 0\<rparr>) \<or>
     (frontier s \<noteq> [] \<and> clock (ticks s) - clock 0 > timeout_secs \<and>
       path = None \<and> acts = None \<and>
       m = (self_metrics s)\<lparr>timeout := True, total_time := clock (Suc (ticks s)) - clock 0\<rparr>) \<or>
     (frontier s \<noteq> [] \<and> \<not> clock (ticks s) - clock 0 > timeout_secs \<and>
       (\<exists>f node c. (f, node) \<in> set (frontier s) \<and> goal_test p (state node) \<and>
          path = Some (fst (extract_solution node)) \<and>
          acts = Some (snd (extract_solution node)) \<and>
          m = (let m1 = (self_metrics s)
                    \<lparr>max_memory_nodes := c,
                     nodes_expanded := nodes_expanded (self_metrics s) + 1,
                     success := True,
                     total_time := clock (Suc (ticks s)) - clock 0,
                     solution_length := length (snd (extract_solution node))\<rparr>
               in if branching_factors s \<noteq> []
                  then m1\<lparr>avg_branching_factor :=
                           real (sum_list (branching_factors s))
                           / real (length (branching_factors s))\<rparr>
                  else m1) \<and>
          length (frontier s) = Suc (length (frontier st))))"
    by blast
  from loop_state_counts[OF o(1)] have c:
    "nodes_expanded (self_metrics s) = card (explored s)"
    "card (explored s) + length (frontier s) \<le> nodes_generated (self_metrics s)"
    "\<not> success (self_metrics s)"
    "frontier_inv (state_key p) s"
    by (simp_all add: AStarSolver_init_def AStarMetrics_init_def)
  have fin: "finite (explored st)"
    using c(4) o(2) by (simp add: frontier_inv_def frontier_ok_def)
  from o(3) show ?thesis
  proof (elim disjE)
    assume "frontier s = [] \<and> path = None \<and> acts = None \<and>
       m = (self_metrics s)\<lparr>total_time := clock (ticks s) - clock 0\<rparr>"
    with c o(2) fin show ?thesis by simp
  next
    assume "frontier s \<noteq> [] \<and> clock (ticks s) - clock 0 > timeout_secs \<and>
       path = None \<and> acts = None \<and>
       m = (self_metrics s)\<lparr>timeout := True, total_time := clock (Suc (ticks s)) - clock 0\<rparr>"
    with c o(2) fin show ?thesis by simp
  next
    assume a: "frontier s \<noteq> [] \<and> \<not> clock (ticks s) - clock 0 > timeout_secs \<and>
       (\<exists>f node c. (f, node) \<in> set (frontier s) \<and> goal_test p (state node) \<and>
          path = Some (fst (extract_solution node)) \<and>
          acts = Some (snd (extract_solution node)) \<and>
          m = (let m1 = (self_metrics s)
                    \<lparr>max_memory_nodes := c,
                     nodes_expanded := nodes_expanded (self_metrics s) + 1,
                     success := True,
                     total_time := clock (Suc (ticks s)) - clock 0,
                     solution_length := length (snd (extract_solution node))\<rparr>
               in if branching_factors s \<noteq> []
                  then m1\<lparr>avg_branching_factor :=
                           real (sum_list (branching_factors s))
                           / real (length (branching_factors s))\<rparr>
                  else m1) \<and>
          length (frontier s) = Suc (length (frontier st)))"
    then have ne: "length (frontier s) \<ge> 1" by (cases "frontier s") auto
    from a have m: "nodes_expanded m = nodes_expanded (self_metrics s) + 1"
      "nodes_generated m = nodes_generated (self_metrics s)" "success m" "path \<noteq> None"
      by (auto simp: Let_def)
    with c o(2) fin ne show ?thesis by simp
  qed
qed

theorem fresh_solver_counts_witness:
  "\<exists>path acts m st.
     run_search (Suc (Suc (Suc 0))) (AStarSolver_init simple_heuristic) TestProblem 30 still_clock
       = Some (Inr ((path, acts, m), st)) \<and>
     nodes_expanded m = 2 \<and> nodes_generated m = 2 \<and> card (explored st) = 1 \<and> success m \<and>
     path \<noteq> None"
proof -
  from test_run_search obtain st where r:
    "run_search (Suc (Suc (Suc 0))) (AStarSolver_init simple_heuristic) TestProblem 30 still_clock =
     Some (Inr ((Some [''start'', ''goal''], Some [''move''],
        \<lparr>nodes_expanded = 2, nodes_generated = 2, max_frontier_size = 1,
           max_memory_nodes = 2, total_time = 0, solution_length = 1,
           success = True, timeout = False, avg_branching_factor = 1\<rparr>), st))"
    unfolding test_solver_def by blast
  from fresh_solver_counts[OF r] r show ?thesis by simp
qed

text \<open>
  C2 as stated fails: \<open>test_a_star\<close>'s run pops two nodes, \<open>start\<close> and \<open>goal\<close>, and
  only \<open>start\<close> enters the explored set.
\<close>

theorem goal_pop_is_counted:
  "map_option (map_sum id (\<lambda>(r, st). (nodes_expanded (snd (snd r)), card (explored st))))
     (run_search (Suc (Suc (Suc 0))) test_solver TestProblem 30 still_clock) = Some (Inr (2, 1))"
proof -
  from test_run_search obtain st where
    "run_search (Suc (Suc (Suc 0))) test_solver TestProblem 30 still_clock =
     Some (Inr ((Some [''start'', ''goal''], Some [''move''],
        \<lparr>nodes_expanded = 2, nodes_generated = 2, max_frontier_size = 1,
           max_memory_nodes = 2, total_time = 0, solution_length = 1,
           success = True, timeout = False, avg_branching_factor = 1\<rparr>), st))"
    "explored st = {''start''}"
    by blast
  then show ?thesis by simp
qed

text \<open>
  C3, as the code has it.  \<open>__init__\<close> checks nothing: when parsing finds no player the
  problem is built all the same, with the player \<open>None\<close> in the attributes and in the
  initial state, and no exception is raised.  The missing player shows only later:
  \<open>actions\<close> on that state raises \<open>TypeError\<close>.
\<close>

theorem no_player_accepted:
  assumes "fst (snd (snd (parse_level level_str))) = None"
  shows "\<exists>sp. SokobanProblem_init level_str = Inr sp \<and>
           level_player sp = None \<and> player (initial_state sp) = None \<and>
           sokoban_actions (initial_state sp) = Inl TypeError"
  using assms
  by (cases "parse_level level_str") (simp add: SokobanProblem_init_def sokoban_actions_def)

theorem no_player_accepted_witness:
  "fst (snd (snd (parse_level LEVEL_no_player))) = None \<and>
   (\<exists>sp. SokobanProblem_init LEVEL_no_player = Inr sp \<and>
           level_player sp = None \<and> player (initial_state sp) = None \<and>
           sokoban_actions (initial_state sp) = Inl TypeError)"
proof -
  have h: "fst (snd (snd (parse_level LEVEL_no_player))) = None"
    by (simp add: parse_no_player)
  from no_player_accepted[OF h] h show ?thesis by simp
qed

text \<open>
  C3 as stated fails: the level \<open>###\<close> has no player, and the constructor returns a
  problem, not an error.
\<close>

theorem no_player_is_tolerated:
  "SokobanProblem_init LEVEL_no_player =
     Inr \<lparr>level_walls = {(0, 0), (0, 1), (0, 2)}, level_boxes = {}, level_player = None,
          level_goals = {},
          initial_state = \<lparr>boxes = {}, player = None, walls = {(0, 0), (0, 1), (0, 2)}, goals = {}\<rparr>\<rparr>"
  by (simp add: SokobanProblem_init_def parse_no_player)


text \<open>
  C4 fails on the code.  The metrics object is made in \<open>__init__\<close>, and \<open>solve\<close> sets
  \<open>nodes_generated\<close>, \<open>max_frontier_size\<close> and \<open>max_memory_nodes\<close> back to 1 but not
  \<open>nodes_expanded\<close>.  Two runs of one solver on \<open>test_a_star\<close>'s problem, same heuristic,
  same clock: both return the same path and actions and \<open>nodes_generated = 2\<close>, but
  the first returns \<open>nodes_expanded = 2\<close> and the second \<open>nodes_expanded = 4\<close>.
\<close>

theorem second_run_counts_on:
  "solve (Suc (Suc (Suc 0))) test_solver TestProblem 30 still_clock = Some (Inr test_result1) \<and>
   solve (Suc (Suc (Suc 0))) (solver_after test_solver test_result1) TestProblem 30 still_clock =
     Some (Inr (Some [''start'', ''goal''], Some [''move''],
        \<lparr>nodes_expanded = 4, nodes_generated = 2, max_frontier_size = 1,
         max_memory_nodes = 2, total_time = 0, solution_length = 1,
         success = True, timeout = False, avg_branching_factor = 1\<rparr>))"
  by (simp add: test_solve1)
     (simp add: solve_def run_search_def search_init_def Let_def Node_init_def heappush_Nil test_solver_def
       AStarSolver_init_def AStarMetrics_init_def TestProblem_def simple_heuristic_def solver_f_def
       iteration_def heappop_def consider_child_def extract_solution_def one_enat_def zero_enat_def
       still_clock_def test_result1_def solver_after_def)



text \<open>
  C5 fails on the code.  The average is computed only where \<open>solve\<close> returns a
  solution; the two other returns leave \<open>avg_branching_factor\<close> as it was.  On the
  level without goal the search expands three states, each with one action, and
  returns with the frontier exhausted: the samples are 1, 1, 1 and the returned
  \<open>avg_branching_factor\<close> is 0.
\<close>

theorem no_average_when_exhausted:
  "map_option (map_sum id (\<lambda>(r, st). (r, branching_factors st)))
     (run_search (Suc (Suc (Suc (Suc 0)))) no_goal_solver (sokoban_problem no_goal_problem) 30 still_clock)
   = Some (Inr ((None, None,
        \<lparr>nodes_expanded = 3, nodes_generated = 4, max_frontier_size = 1,
         max_memory_nodes = 3, total_time = 0, solution_length = 0,
         success = False, timeout = False, avg_branching_factor = 0\<rparr>), [1, 1, 1]))"
  by (simp add: run_search_def search_init_def Let_def Node_init_def heappush_Nil
       no_goal_solver_def no_goal_problem_def no_goal_state_def sokoban_problem_def
       AStarSolver_init_def AStarMetrics_init_def solver_f_def
       iteration_def heappop_def consider_child_def one_enat_def zero_enat_def
       still_clock_def is_goal_def SokobanState_key_def
       simple_count_heuristic_def level1_iter_def
       sokoban_actions_def sokoban_result_def directions_def dir_map_simps level1_walls_def)


text \<open>
  C6.  The loop keeps \<open>frontier_inv\<close>: it holds before the first pass
  (\<open>frontier_inv_search_init\<close>), between passes (\<open>loop_state_frontier_inv\<close>) and from
  child to child within a pass (\<open>consider_child_inv\<close>).  In such a state, for a
  generated child: when the dictionary records its state with a \<open>g\<close> above the
  child's, one entry with that state and that \<open>g\<close> leaves the frontier, the child's
  entry enters it, and the dictionary records the child's \<open>g\<close> and \<open>f\<close>; when the
  recorded \<open>g\<close> is equal or better, the frontier and the dictionary stay as they are;
  when the state is neither in the dictionary nor explored, the child's entry enters
  the frontier and the dictionary.  The heap may reorder the list, so the frontier is
  compared as a multiset.
\<close>

theorem consider_child_decrease_or_skip:
  assumes inv: "frontier_inv key st"
  shows "(\<forall>fg ff. frontier_states st (key (state child)) = Some (fg, ff) \<and> g child < fg \<longrightarrow>
            (\<exists>st' old. consider_child slv key child st = Inr st' \<and>
               old \<in> set (frontier st) \<and> key (state (snd old)) = key (state child) \<and>
               g (snd old) = fg \<and>
               mset (frontier st') =
                 add_mset (solver_f slv child, child) (mset (frontier st) - {#old#}) \<and>
               frontier_states st' =
                 (frontier_states st)(key (state child) \<mapsto> (g child, solver_f slv child)) \<and>
               explored st' = explored st)) \<and>
         (\<forall>fg ff. frontier_states st (key (state child)) = Some (fg, ff) \<and> \<not> g child < fg \<longrightarrow>
            (\<exists>st'. consider_child slv key child st = Inr st' \<and>
               frontier st' = frontier st \<and> frontier_states st' = frontier_states st \<and>
               explored st' = explored st)) \<and>
         (frontier_states st (key (state child)) = None \<and> key (state child) \<notin> explored st \<longrightarrow>
            (\<exists>st'. consider_child slv key child st = Inr st' \<and>
               mset (frontier st') = add_mset (solver_f slv child, child) (mset (frontier st)) \<and>
               frontier_states st' =
                 (frontier_states st)(key (state child) \<mapsto> (g child, solver_f slv child)) \<and>
               explored st' = explored st))"
proof (intro conjI allI impI)
  let ?k = "key (state child)"
  from inv have ok: "frontier_ok key (frontier st) (frontier_states st) (explored st)"
    by (simp add: frontier_inv_def)
  have nex: "?k \<notin> explored st" if "frontier_states st ?k = Some v" for v
  proof -
    from that ok have "?k \<in> entry_key key ` set (frontier st)"
      by (auto simp: frontier_ok_def)
    with ok show ?thesis by (auto simp: frontier_ok_def)
  qed
  {
    fix fg ff
    assume a: "frontier_states st ?k = Some (fg, ff) \<and> g child < fg"
    from consider_child_better[where slv=slv, OF inv nex[of "(fg, ff)"] _ _, of fg ff] a
    obtain old fr1 where r:
      "consider_child slv key child st =
         Inr (st\<lparr>frontier := heappush fr1 (solver_f slv child, child),
                 frontier_states := (frontier_states st)(?k \<mapsto> (g child, solver_f slv child)),
                 self_metrics := (self_metrics st)
                   \<lparr>nodes_generated := nodes_generated (self_metrics st) + 1\<rparr>\<rparr>)"
      "old \<in> set (frontier st)" "entry_key key old = ?k"
      "mset (frontier st) = add_mset old (mset fr1)"
      by blast
    have "frontier_states st (entry_key key old) = Some (g (snd old), fst old)"
      using ok r(2) by (simp add: frontier_ok_def)
    with a r(3) have gold: "g (snd old) = fg" by simp
    have "mset (heappush fr1 (solver_f slv child, child)) =
            add_mset (solver_f slv child, child) (mset (frontier st) - {#old#})"
      using r(4) by (simp add: mset_heappush)
    with r gold show "\<exists>st' old. consider_child slv key child st = Inr st' \<and>
               old \<in> set (frontier st) \<and> key (state (snd old)) = key (state child) \<and>
               g (snd old) = fg \<and>
               mset (frontier st') =
                 add_mset (solver_f slv child, child) (mset (frontier st) - {#old#}) \<and>
               frontier_states st' =
                 (frontier_states st)(key (state child) \<mapsto> (g child, solver_f slv child)) \<and>
               explored st' = explored st"
      by (intro exI[of _ "st\<lparr>frontier := heappush fr1 (solver_f slv child, child),
                 frontier_states := (frontier_states st)(?k \<mapsto> (g child, solver_f slv child)),
                 self_metrics := (self_metrics st)
                   \<lparr>nodes_generated := nodes_generated (self_metrics st) + 1\<rparr>\<rparr>"] exI[of _ old])
         (simp add: entry_key_def)
  }
  {
    fix fg ff
    assume a: "frontier_states st ?k = Some (fg, ff) \<and> \<not> g child < fg"
    from consider_child_not_better[where slv=slv and key=key and child=child and st=st and fg=fg and ff=ff]
      a nex[of "(fg, ff)"]
    show "\<exists>st'. consider_child slv key child st = Inr st' \<and>
               frontier st' = frontier st \<and> frontier_states st' = frontier_states st \<and>
               explored st' = explored st"
      by simp
  }
  {
    assume a: "frontier_states st ?k = None \<and> ?k \<notin> explored st"
    from consider_child_new[where slv=slv and key=key and child=child and st=st] a
    show "\<exists>st'. consider_child slv key child st = Inr st' \<and>
               mset (frontier st') = add_mset (solver_f slv child, child) (mset (frontier st)) \<and>
               frontier_states st' =
                 (frontier_states st)(key (state child) \<mapsto> (g child, solver_f slv child)) \<and>
               explored st' = explored st"
      by (simp add: mset_heappush)
  }
qed

theorem consider_child_decrease_or_skip_witness:
  "frontier_inv (\<lambda>s. s) search_x \<and>
   frontier_states search_x ''x'' = Some (3, 3) \<and>
   frontier_states search_x ''y'' = None \<and> ''y'' \<notin> explored search_x \<and>
   (\<exists>st' old. consider_child zero_solver (\<lambda>s. s) (Node ''x'' None None 1) search_x = Inr st' \<and>
      old \<in> set (frontier search_x) \<and> state (snd old) = ''x'' \<and> g (snd old) = 3 \<and>
      mset (frontier st') =
        add_mset (solver_f zero_solver (Node ''x'' None None 1), Node ''x'' None None 1)
          (mset (frontier search_x) - {#old#}) \<and>
      frontier_states st' =
        (frontier_states search_x)(''x'' \<mapsto> (1, solver_f zero_solver (Node ''x'' None None 1))) \<and>
      explored st' = explored search_x) \<and>
   (\<exists>st'. consider_child zero_solver (\<lambda>s. s) (Node ''x'' None None 3) search_x = Inr st' \<and>
      frontier st' = frontier search_x \<and> frontier_states st' = frontier_states search_x \<and>
      explored st' = explored search_x) \<and>
   (\<exists>st'. consider_child zero_solver (\<lambda>s. s) (Node ''y'' None None 4) search_x = Inr st' \<and>
      mset (frontier st') =
        add_mset (solver_f zero_solver (Node ''y'' None None 4), Node ''y'' None None 4)
          (mset (frontier search_x)) \<and>
      frontier_states st' =
        (frontier_states search_x)(''y'' \<mapsto> (4, solver_f zero_solver (Node ''y'' None None 4))) \<and>
      explored st' = explored search_x)"
proof -
  have x: "frontier_states search_x ''x'' = Some (3, 3)" by (simp add: search_x_def)
  have y: "frontier_states search_x ''y'' = None" "''y'' \<notin> explored search_x"
    by (simp_all add: search_x_def)
  note t = consider_child_decrease_or_skip[OF frontier_inv_search_x]
  from t[of "Node ''x'' None None 1" zero_solver] x
  have 1: "\<exists>st' old. consider_child zero_solver (\<lambda>s. s) (Node ''x'' None None 1) search_x = Inr st' \<and>
      old \<in> set (frontier search_x) \<and> state (snd old) = ''x'' \<and> g (snd old) = 3 \<and>
      mset (frontier st') =
        add_mset (solver_f zero_solver (Node ''x'' None None 1), Node ''x'' None None 1)
          (mset (frontier search_x) - {#old#}) \<and>
      frontier_states st' =
        (frontier_states search_x)(''x'' \<mapsto> (1, solver_f zero_solver (Node ''x'' None None 1))) \<and>
      explored st' = explored search_x"
    by simp
  from t[of "Node ''x'' None None 3" zero_solver] x
  have 2: "\<exists>st'. consider_child zero_solver (\<lambda>s. s) (Node ''x'' None None 3) search_x = Inr st' \<and>
      frontier st' = frontier search_x \<and> frontier_states st' = frontier_states search_x \<and>
      explored st' = explored search_x"
    by simp
  from t[of "Node ''y'' None None 4" zero_solver] y
  have 3: "\<exists>st'. consider_child zero_solver (\<lambda>s. s) (Node ''y'' None None 4) search_x = Inr st' \<and>
      mset (frontier st') =
        add_mset (solver_f zero_solver (Node ''y'' None None 4), Node ''y'' None None 4)
          (mset (frontier search_x)) \<and>
      frontier_states st' =
        (frontier_states search_x)(''y'' \<mapsto> (4, solver_f zero_solver (Node ''y'' None None 4))) \<and>
      explored st' = explored search_x"
    by simp
  show ?thesis using frontier_inv_search_x x y 1 2 3 by blast
qed


text \<open>
  C7, as the code has it.  \<open>iter\<close> is the order in which Python lists the two sets.
  The Manhattan heuristic and the count return 0 exactly when every box is on a goal.
  The greedy matching returns 0 whenever every box is on a goal, so all three return 0
  on a goal state; when there are at least as many goals as boxes it returns 0 only
  then.  With fewer goals than boxes a box that finds no goal left adds nothing.
\<close>

theorem heuristics_zero:
  assumes "lists_set (iter (boxes s)) (boxes s)" and "lists_set (iter gls) gls"
  shows "(manhattan_heuristic iter s gls = 0 \<longleftrightarrow> boxes s \<subseteq> gls) \<and>
         (simple_count_heuristic iter s gls = 0 \<longleftrightarrow> boxes s \<subseteq> gls) \<and>
         (boxes s \<subseteq> gls \<longrightarrow> minimum_matching_heuristic iter s gls = 0) \<and>
         (card (boxes s) \<le> card gls \<longrightarrow>
            (minimum_matching_heuristic iter s gls = 0 \<longleftrightarrow> boxes s \<subseteq> gls)) \<and>
         (boxes s = gls \<longrightarrow>
            manhattan_heuristic iter s gls = 0 \<and> simple_count_heuristic iter s gls = 0 \<and>
            minimum_matching_heuristic iter s gls = 0)"
proof -
  have 1: "manhattan_heuristic iter s gls = 0 \<longleftrightarrow> boxes s \<subseteq> gls"
    using assms by (rule manhattan_heuristic_zero)
  have 2: "simple_count_heuristic iter s gls = 0 \<longleftrightarrow> boxes s \<subseteq> gls"
    using assms(1) by (rule simple_count_heuristic_zero)
  have 3: "minimum_matching_heuristic iter s gls = 0" if "boxes s \<subseteq> gls"
    using assms that by (rule minimum_matching_heuristic_on_goals)
  have 4: "boxes s \<subseteq> gls"
    if "card (boxes s) \<le> card gls" "minimum_matching_heuristic iter s gls = 0"
    using assms that by (rule minimum_matching_heuristic_zero)
  have 5: "boxes s \<subseteq> gls" if "boxes s = gls" using that by simp
  show ?thesis
    unfolding 1 2 using 3 4 5 by (intro conjI impI iffI) simp_all
qed

theorem heuristics_zero_witness:
  "lists_set (level1_iter (boxes level1_state)) (boxes level1_state) \<and>
   lists_set (level1_iter {(1, 3)}) {(1, 3)} \<and>
   card (boxes level1_state) \<le> card {(1, 3) :: pos} \<and>
   \<not> boxes level1_state \<subseteq> {(1, 3)} \<and>
   manhattan_heuristic level1_iter level1_state {(1, 3)} \<noteq> 0 \<and>
   simple_count_heuristic level1_iter level1_state {(1, 3)} \<noteq> 0 \<and>
   minimum_matching_heuristic level1_iter level1_state {(1, 3)} \<noteq> 0 \<and>
   lists_set (level1_iter (boxes \<lparr>boxes = {(1, 3)}, player = Some (1, 2), walls = level1_walls, goals = {(1, 3)}\<rparr>))
     (boxes \<lparr>boxes = {(1, 3)}, player = Some (1, 2), walls = level1_walls, goals = {(1, 3)}\<rparr>) \<and>
   manhattan_heuristic level1_iter
     \<lparr>boxes = {(1, 3)}, player = Some (1, 2), walls = level1_walls, goals = {(1, 3)}\<rparr> {(1, 3)} = 0 \<and>
   simple_count_heuristic level1_iter
     \<lparr>boxes = {(1, 3)}, player = Some (1, 2), walls = level1_walls, goals = {(1, 3)}\<rparr> {(1, 3)} = 0 \<and>
   minimum_matching_heuristic level1_iter
     \<lparr>boxes = {(1, 3)}, player = Some (1, 2), walls = level1_walls, goals = {(1, 3)}\<rparr> {(1, 3)} = 0"
proof -
  let ?g = "\<lparr>boxes = {(1, 3)}, player = Some (1, 2), walls = level1_walls, goals = {(1, 3)}\<rparr>"
  have a: "lists_set (level1_iter (boxes level1_state)) (boxes level1_state)"
    by (simp add: level1_state_fields level1_iter_lists)
  have b: "lists_set (level1_iter (boxes ?g)) (boxes ?g)"
    by (simp add: level1_iter_lists)
  have c: "card (boxes level1_state) \<le> card {(1, 3) :: pos}" "\<not> boxes level1_state \<subseteq> {(1, 3)}"
    by (simp_all add: level1_state_fields)
  have d: "boxes ?g = {(1, 3)}" by simp
  note t1 = heuristics_zero[where iter=level1_iter and s=level1_state and gls="{(1, 3)}",
      OF a level1_iter_lists(2)]
  note t2 = heuristics_zero[where iter=level1_iter and s="?g" and gls="{(1, 3)}",
      OF b level1_iter_lists(2)]
  have off: "manhattan_heuristic level1_iter level1_state {(1, 3)} \<noteq> 0"
    "simple_count_heuristic level1_iter level1_state {(1, 3)} \<noteq> 0"
    "minimum_matching_heuristic level1_iter level1_state {(1, 3)} \<noteq> 0"
    using t1 c by simp_all
  have on: "manhattan_heuristic level1_iter ?g {(1, 3)} = 0"
    "simple_count_heuristic level1_iter ?g {(1, 3)} = 0"
    "minimum_matching_heuristic level1_iter ?g {(1, 3)} = 0"
    using t2 d by simp_all
  show ?thesis
    by (intro conjI a b c off on level1_iter_lists(2))
qed

text \<open>
  C7 as stated fails for the greedy matching: on the level without goal the box at
  (1, 2) is on no goal, and the matching returns 0.
\<close>

theorem matching_zero_off_goal:
  "lists_set (level1_iter (boxes no_goal_state)) (boxes no_goal_state) \<and>
   lists_set (level1_iter {}) {} \<and>
   (1, 2) \<in> boxes no_goal_state \<and> (1, 2) \<notin> ({} :: pos set) \<and>
   minimum_matching_heuristic level1_iter no_goal_state {} = 0"
  by (simp add: no_goal_state_def lists_set_def minimum_matching_heuristic_def Let_def
      level1_iter_def matching_loop_def best_goal_loop_def)


text \<open>
  C8.  In every search state the while loop reaches from the start of \<open>solve\<close>: no
  entry of the frontier holds an explored state; after \<open>n\<close> complete passes the explored
  set has \<open>n\<close> states, so each pass has expanded a state that no earlier pass expanded;
  a pass that goes on expands a node of the frontier whose state is not explored yet and
  adds that state to the explored set.  And in any search state, a generated child
  whose state is explored is dropped: frontier, dictionary and explored set stay as
  they are.
\<close>

theorem explored_never_reopened:
  assumes "loop_state n slv p timeout_secs clock (search_init slv p) = Some st"
  shows "(\<forall>e \<in> set (frontier st). state_key p (state (snd e)) \<notin> explored st) \<and>
         card (explored st) = n \<and>
         (\<forall>child s. state_key p (state child) \<in> explored s \<longrightarrow>
            (\<exists>s'. consider_child slv (state_key p) child s = Inr s' \<and>
               frontier s' = frontier s \<and> frontier_states s' = frontier_states s \<and>
               explored s' = explored s)) \<and>
         (\<forall>st'. iteration slv p timeout_secs clock st = Next st' \<longrightarrow>
            (\<exists>f node. (f, node) \<in> set (frontier st) \<and>
               state_key p (state node) \<notin> explored st \<and>
               explored st' = insert (state_key p (state node)) (explored st)))"
proof (intro conjI allI impI)
  have inv0: "frontier_inv (state_key p) (search_init slv p)"
    by (rule frontier_inv_search_init)
  from loop_state_frontier_inv[OF assms inv0]
  have inv: "frontier_inv (state_key p) st" .
  then show "\<forall>e \<in> set (frontier st). state_key p (state (snd e)) \<notin> explored st"
    by (simp add: frontier_inv_def frontier_ok_def entry_key_def)
  from loop_state_explored[OF assms inv0]
  show "card (explored st) = n" by (simp add: search_init_def Let_def)
  {
    fix child :: "'a Node" and s :: "('a, 'b) search"
    assume "state_key p (state child) \<in> explored s"
    from consider_child_explored[where key="state_key p" and child=child and st=s and slv=slv, OF this]
    show "\<exists>s'. consider_child slv (state_key p) child s = Inr s' \<and>
               frontier s' = frontier s \<and> frontier_states s' = frontier_states s \<and>
               explored s' = explored s"
      by simp
  }
  {
    fix st'
    assume it: "iteration slv p timeout_secs clock st = Next st'"
    then have ne: "frontier st \<noteq> []" using iteration_empty_frontier by blast
    from iteration_Next[OF inv ne it]
    show "\<exists>f node. (f, node) \<in> set (frontier st) \<and>
               state_key p (state node) \<notin> explored st \<and>
               explored st' = insert (state_key p (state node)) (explored st)"
      by blast
  }
qed

theorem explored_never_reopened_witness:
  "\<exists>st. loop_state (Suc 0) (AStarSolver_init simple_heuristic) TestProblem 30 (\<lambda>n. 0)
           (search_init (AStarSolver_init simple_heuristic) TestProblem) = Some st \<and>
        map (\<lambda>e. state (snd e)) (frontier st) = [''goal''] \<and>
        explored st = {''start''} \<and>
        ''goal'' \<notin> explored st \<and>
        card (explored st) = Suc 0"
  using explored_never_reopened[OF test_loop_state1]
  unfolding test_loop_state1 by simp


text \<open>
  C9 fails on the code, by the same omission: \<open>solve\<close> does not set \<open>success\<close> back.
  After a run that succeeded, a run of the same solver that passes the time limit at
  its first check returns no path and no actions with \<open>timeout = True\<close> and, left
  over from the first run, \<open>success = True\<close>.
\<close>

theorem stale_success_on_timeout:
  "solve (Suc (Suc (Suc 0))) test_solver TestProblem 30 still_clock = Some (Inr test_result1) \<and>
   solve (Suc (Suc (Suc 0))) (solver_after test_solver test_result1) TestProblem 30 jumping_clock =
     Some (Inr (None, None,
        \<lparr>nodes_expanded = 2, nodes_generated = 1, max_frontier_size = 1,
         max_memory_nodes = 1, total_time = 100, solution_length = 1,
         success = True, timeout = True, avg_branching_factor = 1\<rparr>))"
  by (simp add: test_solve1)
     (simp add: solve_def run_search_def search_init_def Let_def Node_init_def heappush_Nil test_solver_def
       AStarSolver_init_def AStarMetrics_init_def TestProblem_def simple_heuristic_def solver_f_def
       iteration_def one_enat_def zero_enat_def
       jumping_clock_def test_result1_def solver_after_def)

text \<open>
  C10.  In a state whose boxes are off the walls, every action that \<open>actions\<close> returns
  is applied by \<open>result\<close> without an exception, and the new state has as many boxes
  as the old one, its boxes are off the walls, and its player stands on a cell that is
  not a wall.  (That the old player is off the walls is not needed: \<open>actions\<close> checks
  the destination.  A state without player has no actions: \<open>actions\<close> raises.)
\<close>

theorem result_keeps_boxes:
  assumes "finite (boxes s)" and "boxes s \<inter> walls s = {}"
    and "sokoban_actions s = Inr acts" and "a \<in> set acts"
  shows "\<exists>s' cost pl'. sokoban_result s a = Inr (s', cost) \<and>
           finite (boxes s') \<and> card (boxes s') = card (boxes s) \<and>
           boxes s' \<inter> walls s' = {} \<and>
           player s' = Some pl' \<and> pl' \<notin> walls s'"
proof -
  from sokoban_actions_legal[OF assms(3,4)] obtain pr pc dr dc where l:
    "player s = Some (pr, pc)" "dir_map a = Some (dr, dc)"
    "(pr + dr, pc + dc) \<notin> walls s"
    "(pr + dr, pc + dc) \<in> boxes s \<longrightarrow>
       (pr + dr + dr, pc + dc + dc) \<notin> walls s \<and> (pr + dr + dr, pc + dc + dc) \<notin> boxes s"
    by blast
  show ?thesis
  proof (cases "(pr + dr, pc + dc) \<in> boxes s")
    case False
    with l assms(1,2) show ?thesis
      by (simp add: sokoban_result_def Let_def)
  next
    case True
    with l have nb: "(pr + dr + dr, pc + dc + dc) \<notin> walls s" "(pr + dr + dr, pc + dc + dc) \<notin> boxes s"
      by simp_all
    have c: "card (insert (pr + dr + dr, pc + dc + dc) (boxes s - {(pr + dr, pc + dc)})) = card (boxes s)"
    proof -
      have "card (boxes s) > 0" using True assms(1) by (auto simp: card_gt_0_iff)
      moreover have "card (boxes s - {(pr + dr, pc + dc)}) = card (boxes s) - 1"
        using True by (simp add: card_Diff_singleton)
      moreover have "card (insert (pr + dr + dr, pc + dc + dc) (boxes s - {(pr + dr, pc + dc)}))
                     = Suc (card (boxes s - {(pr + dr, pc + dc)}))"
        using nb(2) assms(1) by (subst card_insert_disjoint) auto
      ultimately show ?thesis by simp
    qed
    have d: "insert (pr + dr + dr, pc + dc + dc) (boxes s - {(pr + dr, pc + dc)}) \<inter> walls s = {}"
      using nb(1) assms(2) by blast
    have "sokoban_result s a =
        Inr (\<lparr>boxes = insert (pr + dr + dr, pc + dc + dc) (boxes s - {(pr + dr, pc + dc)}),
              player = Some (pr + dr, pc + dc), walls = walls s, goals = goals s\<rparr>, 1)"
      using True l(1,2) by (simp add: sokoban_result_def Let_def)
    then show ?thesis
      using c d l(3) assms(1) by simp
  qed
qed

theorem result_keeps_boxes_witness:
  "finite (boxes level1_state) \<and> boxes level1_state \<inter> walls level1_state = {} \<and>
   sokoban_actions level1_state = Inr [''RIGHT''] \<and>
   sokoban_result level1_state ''RIGHT'' =
     Inr (\<lparr>boxes = {(1, 3)}, player = Some (1, 2), walls = level1_walls, goals = {(1, 3)}\<rparr>, 1) \<and>
   card {(1, 3) :: pos} = card (boxes level1_state) \<and>
   {(1, 3)} \<inter> level1_walls = {} \<and> (1, 2) \<notin> level1_walls"
proof -
  have h1: "finite (boxes level1_state)" by (simp add: level1_state_def)
  have h2: "boxes level1_state \<inter> walls level1_state = {}"
    by (simp add: level1_state_def level1_walls_def)
  have h4: "''RIGHT'' \<in> set [''RIGHT'']" by simp
  from result_keeps_boxes[OF h1 h2 level1_actions h4]
  show ?thesis
    using h1 h2 level1_actions level1_result by auto
qed

section \<open>Further properties of the engine\<close>

text \<open>
  On a solver fresh from \<open>__init__\<close>, a \<open>solve\<close> that returns gives a path and actions
  together or neither; \<open>success\<close> says which; \<open>timeout\<close> is set only when there is no
  path, and tells the time limit from the exhausted frontier; on success
  \<open>solution_length\<close> is the number of actions.
\<close>

theorem fresh_solver_outcomes:
  assumes "solve fuel (AStarSolver_init h) p timeout_secs clock = Some (Inr (path, acts, m))"
  shows "(path = None \<longleftrightarrow> acts = None) \<and>
         (success m \<longleftrightarrow> path \<noteq> None) \<and>
         (timeout m \<longrightarrow> path = None) \<and>
         (\<forall>as. acts = Some as \<longrightarrow> solution_length m = length as)"
proof -
  let ?slv = "AStarSolver_init h"
  from assms obtain st where r:
    "run_search fuel ?slv p timeout_secs clock = Some (Inr ((path, acts, m), st))"
    by (auto simp: solve_Inr)
  from run_search_outcome[OF r] obtain k s where o:
    "loop_state k ?slv p timeout_secs clock (search_init ?slv p) = Some s"
    "(frontier s = [] \<and> path = None \<and> acts = None \<and>
       m = (self_metrics s)\<lparr>total_time := clock (ticks s) - clock 0\<rparr>) \<or>
     (frontier s \<noteq> [] \<and> clock (ticks s) - clock 0 > timeout_secs \<and>
       path = None \<and> acts = None \<and>
       m = (self_metrics s)\<lparr>timeout := True, total_time := clock (Suc (ticks s)) - clock 0\<rparr>) \<or>
     (frontier s \<noteq> [] \<and> \<not> clock (ticks s) - clock 0 > timeout_secs \<and>
       (\<exists>f node c. (f, node) \<in> set (frontier s) \<and> goal_test p (state node) \<and>
          path = Some (fst (extract_solution node)) \<and>
          acts = Some (snd (extract_solution node)) \<and>
          m = (let m1 = (self_metrics s)
                    \<lparr>max_memory_nodes := c,
                     nodes_expanded := nodes_expanded (self_metrics s) + 1,
                     success := True,
                     total_time := clock (Suc (ticks s)) - clock 0,
                     solution_length := length (snd (extract_solution node))\<rparr>
               in if branching_factors s \<noteq> []
                  then m1\<lparr>avg_branching_factor :=
                           real (sum_list (branching_factors s))
                           / real (length (branching_factors s))\<rparr>
                  else m1) \<and>
          length (frontier s) = Suc (length (frontier st))))"
    by blast
  from loop_state_counts[OF o(1)] have c:
    "\<not> success (self_metrics s)" "\<not> timeout (self_metrics s)"
    by (simp_all add: AStarSolver_init_def AStarMetrics_init_def)
  from o(2) show ?thesis
  proof (elim disjE)
    assume "frontier s = [] \<and> path = None \<and> acts = None \<and>
       m = (self_metrics s)\<lparr>total_time := clock (ticks s) - clock 0\<rparr>"
    with c show ?thesis by simp
  next
    assume "frontier s \<noteq> [] \<and> clock (ticks s) - clock 0 > timeout_secs \<and>
       path = None \<and> acts = None \<and>
       m = (self_metrics s)\<lparr>timeout := True, total_time := clock (Suc (ticks s)) - clock 0\<rparr>"
    with c show ?thesis by simp
  next
    assume "frontier s \<noteq> [] \<and> \<not> clock (ticks s) - clock 0 > timeout_secs \<and>
       (\<exists>f node c. (f, node) \<in> set (frontier s) \<and> goal_test p (state node) \<and>
          path = Some (fst (extract_solution node)) \<and>
          acts = Some (snd (extract_solution node)) \<and>
          m = (let m1 = (self_metrics s)
                    \<lparr>max_memory_nodes := c,
                     nodes_expanded := nodes_expanded (self_metrics s) + 1,
                     success := True,
                     total_time := clock (Suc (ticks s)) - clock 0,
                     solution_length := length (snd (extract_solution node))\<rparr>
               in if branching_factors s \<noteq> []
                  then m1\<lparr>avg_branching_factor :=
                           real (sum_list (branching_factors s))
                           / real (length (branching_factors s))\<rparr>
                  else m1) \<and>
          length (frontier s) = Suc (length (frontier st)))"
    then obtain node where n: "path = Some (fst (extract_solution node))"
      "acts = Some (snd (extract_solution node))"
      "success m" "timeout m = timeout (self_metrics s)"
      "solution_length m = length (snd (extract_solution node))"
      by (auto simp: Let_def)
    with c show ?thesis by simp
  qed
qed

theorem fresh_solver_outcomes_witness:
  "solve (Suc (Suc (Suc 0))) (AStarSolver_init simple_heuristic) TestProblem 30 still_clock =
     Some (Inr test_result1) \<and>
   success (snd (snd test_result1)) \<and> fst test_result1 \<noteq> None \<and>
   fst (snd test_result1) \<noteq> None \<and> \<not> timeout (snd (snd test_result1)) \<and>
   solution_length (snd (snd test_result1)) = length [''move'']"
proof -
  have r: "solve (Suc (Suc (Suc 0))) (AStarSolver_init simple_heuristic) TestProblem 30 still_clock =
     Some (Inr (Some [''start'', ''goal''], Some [''move''],
      \<lparr>nodes_expanded = 2, nodes_generated = 2, max_frontier_size = 1,
       max_memory_nodes = 2, total_time = 0, solution_length = 1,
       success = True, timeout = False, avg_branching_factor = 1\<rparr>))"
    using test_solve1 by (simp add: test_solver_def test_result1_def)
  from fresh_solver_outcomes[OF r] r show ?thesis
    by (simp add: test_result1_def)
qed

text \<open>
  \<open>solve\<close> raises nothing of its own: an exception that leaves it was raised by the
  problem's \<open>actions\<close> or \<open>result\<close>.
\<close>

theorem solve_raises_only_problem_errors:
  assumes "solve fuel slv p timeout_secs clock = Some (Inl e)"
  shows "\<exists>s. actions p s = Inl e \<or> (\<exists>a. result p s a = Inl e)"
proof -
  have "search_loop fuel slv p timeout_secs clock (search_init slv p) = Some (Inl e)"
  proof (cases "run_search fuel slv p timeout_secs clock")
    case None
    with assms show ?thesis by (simp add: solve_def)
  next
    case (Some x)
    with assms show ?thesis by (cases x) (auto simp: solve_def run_search_def)
  qed
  from search_loop_last[OF this] obtain k st where l:
    "loop_state k slv p timeout_secs clock (search_init slv p) = Some st"
    "frontier st \<noteq> []" "iteration slv p timeout_secs clock st = Raise e"
    by (auto split: if_splits)
  have inv: "frontier_inv (state_key p) st"
    using loop_state_frontier_inv[OF l(1) frontier_inv_search_init] .
  from iteration_Raise[OF inv l(2,3)] show ?thesis by blast
qed

theorem solve_raises_only_problem_errors_witness:
  "solve (Suc 0) no_goal_solver (sokoban_problem lone_box_problem) 30 still_clock = Some (Inl TypeError) \<and>
   actions (sokoban_problem lone_box_problem) lone_box_state = Inl TypeError"
proof -
  have r: "solve (Suc 0) no_goal_solver (sokoban_problem lone_box_problem) 30 still_clock = Some (Inl TypeError)"
    by (simp add: solve_def run_search_def search_init_def Let_def Node_init_def heappush_Nil
       no_goal_solver_def lone_box_problem_def lone_box_state_def sokoban_problem_def
       AStarSolver_init_def AStarMetrics_init_def solver_f_def
       iteration_def heappop_def one_enat_def zero_enat_def
       still_clock_def is_goal_def SokobanState_key_def
       simple_count_heuristic_def level1_iter_def sokoban_actions_def)
  from solve_raises_only_problem_errors[OF r] r show ?thesis
    by (simp add: sokoban_problem_def sokoban_actions_def lone_box_state_def)
qed

text \<open>More fuel does not change what \<open>solve\<close> returns.\<close>

theorem solve_fuel_mono:
  assumes "solve fuel slv p timeout_secs clock = Some res"
  shows "solve (fuel + k) slv p timeout_secs clock = Some res"
proof -
  from assms obtain r where r: "run_search fuel slv p timeout_secs clock = Some r"
    "res = map_sum id fst r"
    by (auto simp: solve_def)
  from search_loop_mono[of fuel slv p timeout_secs clock "search_init slv p" r k] r
  show ?thesis by (simp add: solve_def run_search_def)
qed

theorem solve_fuel_mono_witness:
  "solve (Suc (Suc (Suc 0))) test_solver TestProblem 30 still_clock = Some (Inr test_result1) \<and>
   solve (Suc (Suc (Suc 0)) + 7) test_solver TestProblem 30 still_clock = Some (Inr test_result1)"
  using solve_fuel_mono[OF test_solve1, of 7] test_solve1 by blast

end
